theory Spec2Isabelle
  imports Main
begin

section \<open>Strings\<close>

text \<open>
  Paths, templates and URLs are \<^typ>\<open>string\<close>s.  The three string primitives of the
  host language that the router relies on are written out: \<open>startsWith\<close>, \<open>endsWith\<close>
  and \<open>includes\<close> (here \<open>includes_str\<close>).
\<close>

definition startsWith :: "string \<Rightarrow> string \<Rightarrow> bool" where
  "startsWith s t = (take (length t) s = t)"

definition endsWith :: "string \<Rightarrow> string \<Rightarrow> bool" where
  "endsWith s t = (length t \<le> length s \<and> drop (length s - length t) s = t)"

fun includes_str :: "string \<Rightarrow> string \<Rightarrow> bool" where
  "includes_str [] t = (t = [])"
| "includes_str (c # cs) t = (startsWith (c # cs) t \<or> includes_str cs t)"

section \<open>Path normalisation (matcher.ts, normalizePath)\<close>

text \<open>
  \<open>path.replace(/\/+/g, '/')\<close>: every maximal run of separators becomes one separator.
\<close>

fun collapse_slashes :: "string \<Rightarrow> string" where
  "collapse_slashes [] = []"
| "collapse_slashes [c] = [c]"
| "collapse_slashes (c # d # cs) =
     (if c = CHR ''/'' \<and> d = CHR ''/'' then collapse_slashes (d # cs)
      else c # collapse_slashes (d # cs))"

definition normalizePath :: "string \<Rightarrow> string" where
  "normalizePath path =
     (if path = [] \<or> path = ''/'' then ''/''
      else
        let n1 = collapse_slashes path;
            n2 = (if startsWith n1 ''/'' then n1 else ''/'' @ n1);
            n3 = (if length n2 > 1 \<and> endsWith n2 ''/'' then take (length n2 - 1) n2 else n2)
        in n3)"

section \<open>Compiled patterns and their cache (matcher.ts, getRegexp and getKeys)\<close>

text \<open>
  The pattern compiler \<open>pathToRegexp\<close> is a third-party library and not part of the
  router; every definition below takes it as the parameter \<open>ptr\<close>.  A compiled pattern
  is a matcher and the ordered list of its parameter names.  The matcher is the
  \<open>exec\<close> method of the regular expression: \<open>None\<close> is the host's \<open>null\<close> (no match),
  \<open>Some caps\<close> carries the capture groups from index 1 on, an \<open>undefined\<close> group being
  \<open>None\<close>.  A template the library rejects makes it throw, which is \<open>None\<close> at the level
  of \<open>ptr\<close> and \<open>Inl TypeError\<close> at the level of the router.
\<close>

datatype error = TypeError | URIError | SecurityError

type_synonym RegExp = "string \<Rightarrow> string option list option"

record compiled =
  regexp :: RegExp
  keys :: "string list"

type_synonym compiler = "string \<Rightarrow> compiled option"

definition test :: "RegExp \<Rightarrow> string \<Rightarrow> bool" where
  "test re s = (re s \<noteq> None)"

record matcher_cache =
  regexpCache :: "string \<rightharpoonup> RegExp"
  keysCache :: "string \<rightharpoonup> string list"

definition getRegexp_cached :: "compiler \<Rightarrow> string \<Rightarrow> matcher_cache \<Rightarrow> (error + RegExp) \<times> matcher_cache" where
  "getRegexp_cached ptr p c =
     (case regexpCache c p of
        Some re \<Rightarrow> (Inr re, c)
      | None \<Rightarrow>
          (case ptr p of
             None \<Rightarrow> (Inl TypeError, c)
           | Some cp \<Rightarrow>
               (Inr (regexp cp),
                c\<lparr>regexpCache := (regexpCache c)(p \<mapsto> regexp cp),
                  keysCache := (keysCache c)(p \<mapsto> keys cp)\<rparr>)))"

definition getKeys_cached :: "compiler \<Rightarrow> string \<Rightarrow> matcher_cache \<Rightarrow> (error + string list) \<times> matcher_cache" where
  "getKeys_cached ptr p c =
     (case keysCache c p of
        Some ks \<Rightarrow> (Inr ks, c)
      | None \<Rightarrow>
          (case getRegexp_cached ptr p c of
             (Inl e, c') \<Rightarrow> (Inl e, c')
           | (Inr _, c') \<Rightarrow> (Inr (case keysCache c' p of Some ks \<Rightarrow> ks | None \<Rightarrow> []), c')))"

definition clearMatcherCache :: "matcher_cache \<Rightarrow> matcher_cache" where
  "clearMatcherCache c = c\<lparr>regexpCache := Map.empty, keysCache := Map.empty\<rparr>"

text \<open>
  A cache is coherent with the compiler when each of its entries is what the compiler
  returns for that key and the two tables have the same keys.  The empty cache is
  coherent, both operations keep coherence, and on a coherent cache they return what the
  compiler returns (lemmas \<open>getRegexp_cached_coherent\<close> and \<open>getKeys_cached_coherent\<close>
  below).  The matching functions therefore read compiled patterns through the two
  cache-free functions \<open>getRegexp\<close> and \<open>getKeys\<close>.
\<close>

definition coherent :: "compiler \<Rightarrow> matcher_cache \<Rightarrow> bool" where
  "coherent ptr c \<longleftrightarrow>
     (\<forall>p. (case regexpCache c p of
             None \<Rightarrow> keysCache c p = None
           | Some re \<Rightarrow> (\<exists>cp. ptr p = Some cp \<and> re = regexp cp \<and> keysCache c p = Some (keys cp))))"

definition getRegexp :: "compiler \<Rightarrow> string \<Rightarrow> error + RegExp" where
  "getRegexp ptr p = (case ptr p of None \<Rightarrow> Inl TypeError | Some cp \<Rightarrow> Inr (regexp cp))"

definition getKeys :: "compiler \<Rightarrow> string \<Rightarrow> error + string list" where
  "getKeys ptr p = (case ptr p of None \<Rightarrow> Inl TypeError | Some cp \<Rightarrow> Inr (keys cp))"

section \<open>Percent-decoding (the host's decodeURIComponent)\<close>

text \<open>
  Strings are held as their UTF-8 bytes.  \<open>decodeURIComponent\<close> copies every
  character other than \<open>%\<close>, turns an escape \<open>%XX\<close> below \<open>0x80\<close> into that character,
  and turns a run of escapes that spells one well-formed UTF-8 sequence into that
  sequence.  Every other use of \<open>%\<close> makes the host throw \<open>URIError\<close>: here \<open>None\<close>.
\<close>

definition hex_digit :: "char \<Rightarrow> nat option" where
  "hex_digit c =
     (let n = of_char c :: nat in
      if 48 \<le> n \<and> n \<le> 57 then Some (n - 48)
      else if 65 \<le> n \<and> n \<le> 70 then Some (n - 55)
      else if 97 \<le> n \<and> n \<le> 102 then Some (n - 87)
      else None)"

text \<open>One escape \<open>%XX\<close> at the head of the string: its byte and the rest.\<close>

fun escape_at :: "string \<Rightarrow> (nat \<times> string) option" where
  "escape_at (p # h # l # rest) =
     (if p = CHR ''%'' then
        (case (hex_digit h, hex_digit l) of
           (Some a, Some b) \<Rightarrow> Some (16 * a + b, rest)
         | _ \<Rightarrow> None)
      else None)"
| "escape_at _ = None"

text \<open>
  The second byte of a well-formed UTF-8 sequence is restricted by the first one
  (no overlong form, no surrogate, nothing above \<open>U+10FFFF\<close>).
\<close>

definition utf8_length :: "nat \<Rightarrow> nat option" where
  "utf8_length b =
     (if 194 \<le> b \<and> b \<le> 223 then Some 2
      else if 224 \<le> b \<and> b \<le> 239 then Some 3
      else if 240 \<le> b \<and> b \<le> 244 then Some 4
      else None)"

definition second_byte_ok :: "nat \<Rightarrow> nat \<Rightarrow> bool" where
  "second_byte_ok b c =
     (if b = 224 then 160 \<le> c \<and> c \<le> 191
      else if b = 237 then 128 \<le> c \<and> c \<le> 159
      else if b = 240 then 144 \<le> c \<and> c \<le> 191
      else if b = 244 then 128 \<le> c \<and> c \<le> 143
      else 128 \<le> c \<and> c \<le> 191)"

text \<open>\<open>continuation n s\<close> reads \<open>n\<close> further escapes, each a byte \<open>10xxxxxx\<close>.\<close>

fun continuation :: "nat \<Rightarrow> string \<Rightarrow> (nat list \<times> string) option" where
  "continuation 0 s = Some ([], s)"
| "continuation (Suc n) s =
     (case escape_at s of
        None \<Rightarrow> None
      | Some (c, rest) \<Rightarrow>
          if 128 \<le> c \<and> c \<le> 191 then
            (case continuation n rest of
               None \<Rightarrow> None
             | Some (cs, rest') \<Rightarrow> Some (c # cs, rest'))
          else None)"

function decodeURIComponent :: "string \<Rightarrow> string option" where
  "decodeURIComponent [] = Some []"
| "decodeURIComponent (c # cs) =
     (if c \<noteq> CHR ''%'' then map_option ((#) c) (decodeURIComponent cs)
      else
        (case escape_at (c # cs) of
           None \<Rightarrow> None
         | Some (b, rest) \<Rightarrow>
             if b < 128 then map_option ((#) (char_of b)) (decodeURIComponent (drop 2 cs))
             else
               (case utf8_length b of
                  None \<Rightarrow> None
                | Some n \<Rightarrow>
                    (case continuation (n - 1) (drop 2 cs) of
                       None \<Rightarrow> None
                     | Some (bs, rest') \<Rightarrow>
                         if second_byte_ok b (hd bs) then
                           map_option ((@) (map char_of (b # bs)))
                             (decodeURIComponent (drop (2 + 3 * (n - 1)) cs))
                         else None))))"
  by pat_completeness auto
termination
  by (relation "measure length") auto

section \<open>Parameter extraction (matcher.ts, extractParams)\<close>

text \<open>
  The result object \<open>params\<close> is a map from names to strings.  It is created as an
  ordinary object, so the assignment \<open>params[key] = value\<close> with the key \<open>__proto__\<close>
  and a string value reaches the inherited setter, which ignores a string: no entry is
  made.  With every other key the assignment stores the value, a later one replacing an
  earlier one.
\<close>

type_synonym params = "string \<rightharpoonup> string"

definition assign :: "params \<Rightarrow> string \<Rightarrow> string \<Rightarrow> params" where
  "assign ps key v = (if key = ''__proto__'' then ps else ps(key \<mapsto> v))"

text \<open>
  The loop \<open>for (i = 0; i < keys.length; i++)\<close>: \<open>caps\<close> holds the groups from
  \<open>match[i + 1]\<close> on; reading past the end of \<open>match\<close> gives \<open>undefined\<close>, as an unset
  group does, and the key is skipped.
\<close>

fun extractParams_loop :: "string list \<Rightarrow> string option list \<Rightarrow> params \<Rightarrow> error + params" where
  "extractParams_loop [] caps ps = Inr ps"
| "extractParams_loop (key # ks) [] ps = extractParams_loop ks [] ps"
| "extractParams_loop (key # ks) (None # caps) ps = extractParams_loop ks caps ps"
| "extractParams_loop (key # ks) (Some v # caps) ps =
     (case decodeURIComponent v of
        None \<Rightarrow> Inl URIError
      | Some d \<Rightarrow> extractParams_loop ks caps (assign ps key d))"

definition extractParams :: "compiler \<Rightarrow> string \<Rightarrow> string \<Rightarrow> error + params" where
  "extractParams ptr pattern pathname =
     (case getRegexp ptr pattern of
        Inl e \<Rightarrow> Inl e
      | Inr re \<Rightarrow>
          (case getKeys ptr pattern of
             Inl e \<Rightarrow> Inl e
           | Inr ks \<Rightarrow>
               (case re pathname of
                  None \<Rightarrow> Inr Map.empty
                | Some caps \<Rightarrow> extractParams_loop ks caps Map.empty)))"

section \<open>Routes and matches (types.ts)\<close>

text \<open>
  A route node.  The component is an opaque handle \<open>'c\<close>; the values of the meta
  mapping are opaque too (\<open>'v\<close>).  An absent \<open>children\<close> field and an empty list of
  children are told apart nowhere in the matcher (\<open>route.children && route.children.length > 0\<close>),
  so \<open>children\<close> is a list and absence is the empty list.
\<close>

datatype ('c, 'v) IRoute =
  IRoute (name: "string option") (path: string) (component: "'c option")
         (children: "('c, 'v) IRoute list") (redirect: "string option")
         (meta: "(string \<rightharpoonup> 'v) option")

text \<open>
  A match.  The fields \<open>path\<close> and \<open>meta\<close> of the source are \<open>matched_path\<close> and
  \<open>matched_meta\<close>, since \<open>path\<close> and \<open>meta\<close> name the fields of a route.
\<close>

record ('c, 'v) MatchedRoute =
  route :: "('c, 'v) IRoute"
  matched_path :: string
  params :: params
  matched_meta :: "string \<rightharpoonup> 'v"

text \<open>\<open>route.meta ?? {}\<close>\<close>

definition meta_or_empty :: "('c, 'v) IRoute \<Rightarrow> (string \<rightharpoonup> 'v)" where
  "meta_or_empty r = (case meta r of None \<Rightarrow> Map.empty | Some m \<Rightarrow> m)"

text \<open>The full path of a node under a prefix: the two template literals of the source.\<close>

definition fullPath :: "string \<Rightarrow> ('c, 'v) IRoute \<Rightarrow> string" where
  "fullPath prefix r =
     normalizePath (if prefix = ''/'' then ''/'' @ path r else prefix @ ''/'' @ path r)"

definition root_match :: "('c, 'v) IRoute \<Rightarrow> ('c, 'v) MatchedRoute" where
  "root_match r = \<lparr>route = r, matched_path = ''/'', params = Map.empty, matched_meta = meta_or_empty r\<rparr>"

section \<open>Route matching (matcher.ts, matchRoute and findMatchingRoutes)\<close>

text \<open>
  \<open>matchRoute\<close> normalises the pathname and runs the loop over the routes;
  \<open>matchRoute_loop\<close> is that loop, one equation per iteration.  \<open>Inr None\<close> is the
  source's \<open>null\<close>; \<open>Inl\<close> is an error thrown by the compiler or the decoder, which
  nothing in the matcher catches.
\<close>

fun matchRoute :: "compiler \<Rightarrow> ('c, 'v) IRoute list \<Rightarrow> string \<Rightarrow> string \<Rightarrow> error + ('c, 'v) MatchedRoute option"
  and matchRoute_loop :: "compiler \<Rightarrow> ('c, 'v) IRoute list \<Rightarrow> string \<Rightarrow> string \<Rightarrow> error + ('c, 'v) MatchedRoute option"
where
  "matchRoute ptr routes pathname prefix = matchRoute_loop ptr routes (normalizePath pathname) prefix"
| "matchRoute_loop ptr [] normalizedPathname prefix = Inr None"
| "matchRoute_loop ptr (IRoute nm p cmp chs red mt # rest) normalizedPathname prefix =
     (let r = IRoute nm p cmp chs red mt;
          fp = fullPath prefix r
      in
        if p = ''/'' \<and> prefix = [] then
          (case (if chs \<noteq> [] then matchRoute ptr chs normalizedPathname ''/'' else Inr None) of
             Inl e \<Rightarrow> Inl e
           | Inr (Some childMatch) \<Rightarrow> Inr (Some childMatch)
           | Inr None \<Rightarrow>
               if normalizedPathname = ''/'' then Inr (Some (root_match r))
               else matchRoute_loop ptr rest normalizedPathname prefix)
        else
          (case getRegexp ptr fp of
             Inl e \<Rightarrow> Inl e
           | Inr re \<Rightarrow>
               if test re normalizedPathname then
                 (case (if chs \<noteq> [] then matchRoute ptr chs normalizedPathname fp else Inr None) of
                    Inl e \<Rightarrow> Inl e
                  | Inr (Some childMatch) \<Rightarrow> Inr (Some childMatch)
                  | Inr None \<Rightarrow>
                      (case extractParams ptr fp normalizedPathname of
                         Inl e \<Rightarrow> Inl e
                       | Inr ps \<Rightarrow>
                           Inr (Some \<lparr>route = r, matched_path = fp, params = ps,
                                      matched_meta = meta_or_empty r\<rparr>)))
               else
                 (case (if chs \<noteq> [] then matchRoute ptr chs normalizedPathname fp else Inr None) of
                    Inl e \<Rightarrow> Inl e
                  | Inr (Some childMatch) \<Rightarrow> Inr (Some childMatch)
                  | Inr None \<Rightarrow> matchRoute_loop ptr rest normalizedPathname prefix)))"

text \<open>
  \<open>findMatchingRoutes\<close>: the list \<open>matches\<close> of the source is empty whenever the loop
  goes on to the next route, since every \<open>push\<close> is followed by \<open>return matches\<close>; the
  loop therefore returns the list it builds in the iteration that returns.
\<close>

fun findMatchingRoutes :: "compiler \<Rightarrow> ('c, 'v) IRoute list \<Rightarrow> string \<Rightarrow> string \<Rightarrow> error + ('c, 'v) MatchedRoute list"
  and findMatchingRoutes_loop :: "compiler \<Rightarrow> ('c, 'v) IRoute list \<Rightarrow> string \<Rightarrow> string \<Rightarrow> error + ('c, 'v) MatchedRoute list"
where
  "findMatchingRoutes ptr routes pathname prefix =
     findMatchingRoutes_loop ptr routes (normalizePath pathname) prefix"
| "findMatchingRoutes_loop ptr [] normalizedPathname prefix = Inr []"
| "findMatchingRoutes_loop ptr (IRoute nm p cmp chs red mt # rest) normalizedPathname prefix =
     (let r = IRoute nm p cmp chs red mt;
          fp = fullPath prefix r
      in
        if p = ''/'' \<and> prefix = [] then
          (case (if chs \<noteq> [] then findMatchingRoutes ptr chs normalizedPathname ''/'' else Inr []) of
             Inl e \<Rightarrow> Inl e
           | Inr childMatches \<Rightarrow>
               if childMatches \<noteq> [] then Inr (root_match r # childMatches)
               else if normalizedPathname = ''/'' then Inr [root_match r]
               else findMatchingRoutes_loop ptr rest normalizedPathname prefix)
        else
          (case getRegexp ptr fp of
             Inl e \<Rightarrow> Inl e
           | Inr re \<Rightarrow>
               if test re normalizedPathname \<or> startsWith normalizedPathname fp then
                 (case extractParams ptr fp normalizedPathname of
                    Inl e \<Rightarrow> Inl e
                  | Inr ps \<Rightarrow>
                      (case (if chs \<noteq> [] then findMatchingRoutes ptr chs normalizedPathname fp
                             else Inr []) of
                         Inl e \<Rightarrow> Inl e
                       | Inr childMatches \<Rightarrow>
                           Inr (\<lparr>route = r, matched_path = fp, params = ps,
                                 matched_meta = meta_or_empty r\<rparr> # childMatches)))
               else findMatchingRoutes_loop ptr rest normalizedPathname prefix))"

section \<open>The browser: location and session history\<close>

text \<open>
  \<open>window.location\<close> is a record of the four parts the router reads; \<open>href\<close> is their
  concatenation.  A URL handed to \<open>pushState\<close> or \<open>replaceState\<close> must keep the origin
  (the browser throws \<open>SecurityError\<close> otherwise) and is cut at the first \<open>#\<close> and the
  first \<open>?\<close>.  URLs that a browser would rewrite (percent-encoding, dot segments,
  backslashes, an empty query or fragment after its marker) are outside this model.
\<close>

record location =
  loc_origin :: string
  loc_pathname :: string
  loc_search :: string
  loc_hash :: string

definition location_href :: "location \<Rightarrow> string" where
  "location_href l = loc_origin l @ loc_pathname l @ loc_search l @ loc_hash l"

definition parse_url :: "location \<Rightarrow> string \<Rightarrow> error + location" where
  "parse_url l url =
     (if \<not> startsWith url (loc_origin l) then Inl SecurityError
      else
        let rest = drop (length (loc_origin l)) url in
        if rest \<noteq> [] \<and> hd rest \<noteq> CHR ''/'' \<and> hd rest \<noteq> CHR ''?'' \<and> hd rest \<noteq> CHR ''#''
        then Inl SecurityError
        else
          let before_hash = takeWhile (\<lambda>c. c \<noteq> CHR ''#'') rest;
              h = dropWhile (\<lambda>c. c \<noteq> CHR ''#'') rest;
              p = takeWhile (\<lambda>c. c \<noteq> CHR ''?'') before_hash;
              q = dropWhile (\<lambda>c. c \<noteq> CHR ''?'') before_hash
          in Inr \<lparr>loc_origin = loc_origin l,
                  loc_pathname = (if p = [] then ''/'' else p),
                  loc_search = q, loc_hash = h\<rparr>)"

text \<open>\<open>window.location.hash = v\<close>: a leading \<open>#\<close> of \<open>v\<close> is dropped before it is stored.\<close>

definition set_hash :: "location \<Rightarrow> string \<Rightarrow> location" where
  "set_hash l v =
     (let f = (if startsWith v ''#'' then drop 1 v else v)
      in l\<lparr>loc_hash := (if f = [] then [] else CHR ''#'' # f)\<rparr>)"

section \<open>Mode adapters (router-mode.ts)\<close>

text \<open>
  \<open>String.prototype.replace\<close> with a string pattern replaces the first occurrence of the
  pattern, wherever it is.
\<close>

fun replace_first :: "string \<Rightarrow> string \<Rightarrow> string \<Rightarrow> string" where
  "replace_first [] pat rep = (if pat = [] then rep else [])"
| "replace_first (c # cs) pat rep =
     (if startsWith (c # cs) pat then rep @ drop (length pat) (c # cs)
      else c # replace_first cs pat rep)"

text \<open>
  The two adapter classes.  The only field is the base of the history adapter, which
  its constructor stores without one trailing separator (\<open>base.replace(/\/$/, '')\<close>).
\<close>

datatype IRouterModeAdapter = HistoryAdapter (base: string) | HashAdapter

definition HistoryModeAdapter :: "string \<Rightarrow> IRouterModeAdapter" where
  "HistoryModeAdapter b = HistoryAdapter (if endsWith b ''/'' then take (length b - 1) b else b)"

definition HashModeAdapter :: "string \<Rightarrow> IRouterModeAdapter" where
  "HashModeAdapter b = HashAdapter"

datatype RouterMode = history | hash

fun getMode :: "IRouterModeAdapter \<Rightarrow> RouterMode" where
  "getMode (HistoryAdapter b) = history"
| "getMode HashAdapter = hash"

fun getCurrentPath :: "IRouterModeAdapter \<Rightarrow> location \<Rightarrow> string" where
  "getCurrentPath (HistoryAdapter b) l =
     (let pathname = loc_pathname l;
          p = (if b \<noteq> [] then replace_first pathname b [] else pathname)
      in if p = [] then ''/'' else p)"
| "getCurrentPath HashAdapter l =
     (let h = drop 1 (loc_hash l);
          p = takeWhile (\<lambda>c. c \<noteq> CHR ''?'') h
      in if p = [] then ''/'' else p)"

fun getCurrentSearch :: "IRouterModeAdapter \<Rightarrow> location \<Rightarrow> string" where
  "getCurrentSearch (HistoryAdapter b) l = loc_search l"
| "getCurrentSearch HashAdapter l = dropWhile (\<lambda>c. c \<noteq> CHR ''?'') (drop 1 (loc_hash l))"

fun buildUrl :: "IRouterModeAdapter \<Rightarrow> location \<Rightarrow> string \<Rightarrow> string \<Rightarrow> string" where
  "buildUrl (HistoryAdapter b) l p search = loc_origin l @ b @ p @ search"
| "buildUrl HashAdapter l p search = loc_origin l @ loc_pathname l @ ''#'' @ p @ search"

section \<open>The state of a page\<close>

text \<open>
  Everything a navigation reads or writes: the browser's location and session history
  (the entries up to the current one, as URLs), the adapter singleton of
  router-mode.ts, the URL held by \<open>routerState\<close>, the lines written with
  \<open>console.error\<close> (the label and the error), and \<open>world\<close>: whatever else the
  application's guards and hooks read and write.
\<close>

record 'w env =
  location :: location
  entries :: "string list"
  currentAdapter :: "IRouterModeAdapter option"
  href :: string
  console :: "(string \<times> string) list"
  world :: 'w

definition pushState :: "string \<Rightarrow> 'w env \<Rightarrow> error + 'w env" where
  "pushState url s =
     (case parse_url (location s) url of
        Inl e \<Rightarrow> Inl e
      | Inr l \<Rightarrow> Inr (s\<lparr>location := l, entries := entries s @ [location_href l]\<rparr>))"

definition replaceState :: "string \<Rightarrow> 'w env \<Rightarrow> error + 'w env" where
  "replaceState url s =
     (case parse_url (location s) url of
        Inl e \<Rightarrow> Inl e
      | Inr l \<Rightarrow> Inr (s\<lparr>location := l, entries := butlast (entries s) @ [location_href l]\<rparr>))"

text \<open>Assigning the fragment adds a history entry when the URL changes.\<close>

definition assign_hash :: "string \<Rightarrow> 'w env \<Rightarrow> 'w env" where
  "assign_hash v s =
     (let l = set_hash (location s) v
      in if l = location s then s
         else s\<lparr>location := l, entries := entries s @ [location_href l]\<rparr>)"

fun adapter_push :: "IRouterModeAdapter \<Rightarrow> string \<Rightarrow> string \<Rightarrow> 'w env \<Rightarrow> error + 'w env" where
  "adapter_push (HistoryAdapter b) p search s =
     pushState (buildUrl (HistoryAdapter b) (location s) p search) s"
| "adapter_push HashAdapter p search s = Inr (assign_hash (p @ search) s)"

fun adapter_replace :: "IRouterModeAdapter \<Rightarrow> string \<Rightarrow> string \<Rightarrow> 'w env \<Rightarrow> error + 'w env" where
  "adapter_replace a p search s = replaceState (buildUrl a (location s) p search) s"

record RouterModeConfig =
  mode :: RouterMode
  config_base :: "string option"

definition createRouterMode :: "RouterModeConfig \<Rightarrow> 'w env \<Rightarrow> IRouterModeAdapter \<times> 'w env" where
  "createRouterMode config s =
     (let b = (case config_base config of None \<Rightarrow> [] | Some x \<Rightarrow> x);
          a = (if mode config = hash then HashModeAdapter b else HistoryModeAdapter b)
      in (a, s\<lparr>currentAdapter := Some a\<rparr>))"

definition getRouterMode :: "'w env \<Rightarrow> IRouterModeAdapter \<times> 'w env" where
  "getRouterMode s =
     (case currentAdapter s of
        None \<Rightarrow> (HistoryModeAdapter [], s\<lparr>currentAdapter := Some (HistoryModeAdapter [])\<rparr>)
      | Some a \<Rightarrow> (a, s))"

definition resetRouterMode :: "'w env \<Rightarrow> 'w env" where
  "resetRouterMode s = s\<lparr>currentAdapter := None\<rparr>"

section \<open>Guards and hooks (guards.ts)\<close>

text \<open>
  A guard is called with \<open>from\<close> and \<open>to\<close> and is awaited.  It may change the state of
  the page; what the \<open>await\<close> yields is a value of the guard's result type, a rejection
  (a throw inside the guard or a rejected promise) with its error, or nothing at all
  when the promise never settles.  A hook runs synchronously and returns or throws.
  In this section the two registries are lists handed to the pipeline when it starts,
  and not part of \<^typ>\<open>'w env\<close>: here a guard or hook cannot register or remove guards
  while the pipeline runs.  The next section has the loop of \<open>runGuards\<close> over the
  array itself, which a guard can edit during the run; the two agree when no registered
  guard edits the array (lemma \<open>runGuards_live_stable\<close> below).
\<close>

datatype NavigationGuardResult = GBool bool | GString string | GVoid

datatype awaited = Resolves NavigationGuardResult | Rejects string | Pending

type_synonym 'w NavigationGuard = "string \<Rightarrow> string \<Rightarrow> 'w env \<Rightarrow> awaited \<times> 'w env"

datatype returned = Returns | Throws string

type_synonym 'w AfterEachHook = "string \<Rightarrow> string \<Rightarrow> 'w env \<Rightarrow> returned \<times> 'w env"

record 'w registry =
  beforeGuards :: "'w NavigationGuard list"
  afterHooks :: "'w AfterEachHook list"

text \<open>Registration appends (the returned remover is in the next section).\<close>

definition beforeEach :: "'w NavigationGuard \<Rightarrow> 'w registry \<Rightarrow> 'w registry" where
  "beforeEach guard reg = reg\<lparr>beforeGuards := beforeGuards reg @ [guard]\<rparr>"

definition afterEach :: "'w AfterEachHook \<Rightarrow> 'w registry \<Rightarrow> 'w registry" where
  "afterEach hook reg = reg\<lparr>afterHooks := afterHooks reg @ [hook]\<rparr>"

definition clearGuards :: "'w registry \<Rightarrow> 'w registry" where
  "clearGuards reg = reg\<lparr>beforeGuards := [], afterHooks := []\<rparr>"

text \<open>What \<open>runGuards\<close> returns: a boolean or a string.\<close>

datatype guard_result = RBool bool | RString string

text \<open>
  \<open>runGuards\<close>, one equation per iteration of its loop.  \<open>None\<close>: the pipeline never
  returns, because it awaits a promise that never settles.
\<close>

fun runGuards :: "'w NavigationGuard list \<Rightarrow> string \<Rightarrow> string \<Rightarrow> 'w env \<Rightarrow> (guard_result \<times> 'w env) option" where
  "runGuards [] from to s = Some (RBool True, s)"
| "runGuards (guard # guards) from to s =
     (case guard from to s of
        (Pending, s') \<Rightarrow> None
      | (Rejects err, s') \<Rightarrow>
          Some (RBool False,
                s'\<lparr>console := console s' @ [(''[Router] Error in beforeEach guard:'', err)]\<rparr>)
      | (Resolves (GBool False), s') \<Rightarrow> Some (RBool False, s')
      | (Resolves (GString target), s') \<Rightarrow> Some (RString target, s')
      | (Resolves (GBool True), s') \<Rightarrow> runGuards guards from to s'
      | (Resolves GVoid, s') \<Rightarrow> runGuards guards from to s')"

fun runAfterHooks :: "'w AfterEachHook list \<Rightarrow> string \<Rightarrow> string \<Rightarrow> 'w env \<Rightarrow> 'w env" where
  "runAfterHooks [] from to s = s"
| "runAfterHooks (hook # hooks) from to s =
     (case hook from to s of
        (Returns, s') \<Rightarrow> runAfterHooks hooks from to s'
      | (Throws err, s') \<Rightarrow>
          runAfterHooks hooks from to
            (s'\<lparr>console := console s' @ [(''[Router] Error in afterEach hook:'', err)]\<rparr>))"

section \<open>The guard pipeline over the live array (guards.ts, runGuards)\<close>

text \<open>
  \<open>beforeGuards\<close> is a module-level array.  \<open>beforeEach\<close> appends to it and returns a
  remover that splices the guard out (\<open>indexOf\<close>, then \<open>splice\<close>), and \<open>runGuards\<close>
  walks it with \<open>for (const guard of beforeGuards)\<close>, awaiting each guard: the array
  iterator keeps a position, and at each step compares it with the current length of
  the array and reads the current element at that position.  Whatever runs during an
  \<open>await\<close>, the guard itself included, can call a remover or \<open>beforeEach\<close>.

  To let guards edit the array, guards are named by identifiers, the array is the list
  of the identifiers registered, held in the first component of the world of the page,
  and a table gives each identifier its guard.  Registering the same function twice
  is the same identifier twice.  The loop may run for ever when guards keep registering
  guards, so it is a partial function, \<open>None\<close> being a promise that never settles.
\<close>

type_synonym gid = nat

type_synonym 'u live = "(gid list \<times> 'u) env"

type_synonym 'u guard_table = "gid \<Rightarrow> (gid list \<times> 'u) NavigationGuard"

definition registered :: "'u live \<Rightarrow> gid list" where
  "registered s = fst (world s)"

definition beforeEach_live :: "gid \<Rightarrow> 'u live \<Rightarrow> 'u live" where
  "beforeEach_live guard s = s\<lparr>world := (registered s @ [guard], snd (world s))\<rparr>"

text \<open>The remover returned by \<open>beforeEach(guard)\<close>: the first occurrence is spliced out.\<close>

definition remover :: "gid \<Rightarrow> 'u live \<Rightarrow> 'u live" where
  "remover guard s = s\<lparr>world := (remove1 guard (registered s), snd (world s))\<rparr>"

partial_function (option) runGuards_live ::
  "'u guard_table \<Rightarrow> nat \<Rightarrow> string \<Rightarrow> string \<Rightarrow> 'u live \<Rightarrow> (guard_result \<times> 'u live) option"
where
  "runGuards_live table i from to s =
     (if i < length (registered s) then
        (case table (registered s ! i) from to s of
           (outcome, s') \<Rightarrow>
             (case outcome of
                Pending \<Rightarrow> None
              | Rejects err \<Rightarrow>
                  Some (RBool False,
                        s'\<lparr>console := console s' @ [(''[Router] Error in beforeEach guard:'', err)]\<rparr>)
              | Resolves result \<Rightarrow>
                  if result = GBool False then Some (RBool False, s')
                  else
                    (case result of
                       GString target \<Rightarrow> Some (RString target, s')
                     | GBool b \<Rightarrow> runGuards_live table (Suc i) from to s'
                     | GVoid \<Rightarrow> runGuards_live table (Suc i) from to s')))
      else Some (RBool True, s))"

section \<open>Navigation (navigation.ts)\<close>

text \<open>
  A query object is the list of its entries, in the order \<open>Object.entries\<close> gives them.
  Numbers are the integers of magnitude below \<open>2^53\<close> here, which \<open>String\<close> writes in
  decimal; other numbers (fractions, and the integers that the host rounds or writes
  with an exponent) are outside this model.
\<close>

datatype qvalue = QString string | QNumber int | QBoolean bool | QUndefined | QNull

type_synonym QueryParams = "(string \<times> qvalue) list"

function digits :: "nat \<Rightarrow> string" where
  "digits n = (if n < 10 then [char_of (48 + n)] else digits (n div 10) @ [char_of (48 + n mod 10)])"
  by pat_completeness auto
termination
  by (relation "measure id") auto

definition String :: "qvalue \<Rightarrow> string" where
  "String v =
     (case v of
        QString x \<Rightarrow> x
      | QNumber i \<Rightarrow> (if i < 0 then ''-'' @ digits (nat (- i)) else digits (nat i))
      | QBoolean b \<Rightarrow> (if b then ''true'' else ''false'')
      | QUndefined \<Rightarrow> ''undefined''
      | QNull \<Rightarrow> ''null'')"

text \<open>
  \<open>encodeURIComponent\<close> on UTF-8 bytes: letters, digits and \<open>- _ . ! ~ * ' ( )\<close> are
  kept, every other byte becomes \<open>%XX\<close> in upper-case hexadecimal.
\<close>

definition unreserved :: "char \<Rightarrow> bool" where
  "unreserved c =
     (let n = of_char c :: nat in
      (48 \<le> n \<and> n \<le> 57) \<or> (65 \<le> n \<and> n \<le> 90) \<or> (97 \<le> n \<and> n \<le> 122)
      \<or> n \<in> {45, 95, 46, 33, 126, 42, 39, 40, 41})"

definition hex_char :: "nat \<Rightarrow> char" where
  "hex_char d = (if d < 10 then char_of (48 + d) else char_of (55 + d))"

definition encodeURIComponent :: "string \<Rightarrow> string" where
  "encodeURIComponent x =
     concat (map (\<lambda>c. if unreserved c then [c]
                       else [CHR ''%'', hex_char (of_char c div 16), hex_char (of_char c mod 16)]) x)"

fun join :: "string list \<Rightarrow> string \<Rightarrow> string" where
  "join [] sep = []"
| "join [x] sep = x"
| "join (x # y # xs) sep = x @ sep @ join (y # xs) sep"

definition buildSearchString :: "QueryParams option \<Rightarrow> string" where
  "buildSearchString query =
     (case query of
        None \<Rightarrow> []
      | Some q \<Rightarrow>
          (let es = map (\<lambda>(key, v). encodeURIComponent key @ ''='' @ encodeURIComponent (String v))
                      (filter (\<lambda>(key, v). v \<noteq> QUndefined \<and> v \<noteq> QNull) q)
           in if es \<noteq> [] then ''?'' @ join es ''&'' else []))"

definition getCurrentPathname :: "'w env \<Rightarrow> string \<times> 'w env" where
  "getCurrentPathname s = (case getRouterMode s of (a, s') \<Rightarrow> (getCurrentPath a (location s'), s'))"

text \<open>
  \<open>push\<close> and \<open>replace\<close>.  Each calls itself when a guard redirects, with nothing that
  bounds the number of redirections, so each is a partial function: \<open>None\<close> is a promise
  that never settles.  \<open>Some (Inr b, s)\<close> is the promise resolved to \<open>b\<close> in state \<open>s\<close>;
  \<open>Some (Inl e, s)\<close> is the promise rejected with \<open>e\<close>, which only the adapter can cause.
\<close>

partial_function (option) push ::
  "'w registry \<Rightarrow> string \<Rightarrow> QueryParams option \<Rightarrow> 'w env \<Rightarrow> ((error + bool) \<times> 'w env) option"
where
  "push reg to query s =
     (case getRouterMode s of (adapter, s0) \<Rightarrow>
      case getCurrentPathname s0 of (from, s1) \<Rightarrow>
      case runGuards (beforeGuards reg) from to s1 of
        None \<Rightarrow> None
      | Some (guardResult, s2) \<Rightarrow>
          if guardResult = RBool False then Some (Inr False, s2)
          else
            (case guardResult of
               RString target \<Rightarrow> push reg target (Some []) s2
             | RBool b \<Rightarrow>
                 (let search = buildSearchString query in
                  case adapter_push adapter to search s2 of
                    Inl e \<Rightarrow> Some (Inl e, s2)
                  | Inr s3 \<Rightarrow>
                      (let s4 = s3\<lparr>href := location_href (location s3)\<rparr>;
                           s5 = runAfterHooks (afterHooks reg) from to s4
                       in Some (Inr True, s5)))))"

partial_function (option) replace ::
  "'w registry \<Rightarrow> string \<Rightarrow> QueryParams option \<Rightarrow> 'w env \<Rightarrow> ((error + bool) \<times> 'w env) option"
where
  "replace reg to query s =
     (case getRouterMode s of (adapter, s0) \<Rightarrow>
      case getCurrentPathname s0 of (from, s1) \<Rightarrow>
      case runGuards (beforeGuards reg) from to s1 of
        None \<Rightarrow> None
      | Some (guardResult, s2) \<Rightarrow>
          if guardResult = RBool False then Some (Inr False, s2)
          else
            (case guardResult of
               RString target \<Rightarrow> replace reg target (Some []) s2
             | RBool b \<Rightarrow>
                 (let search = buildSearchString query in
                  case adapter_replace adapter to search s2 of
                    Inl e \<Rightarrow> Some (Inl e, s2)
                  | Inr s3 \<Rightarrow>
                      (let s4 = s3\<lparr>href := location_href (location s3)\<rparr>;
                           s5 = runAfterHooks (afterHooks reg) from to s4
                       in Some (Inr True, s5)))))"

section \<open>A pattern compiler for plain templates\<close>

text \<open>
  The examples need one concrete compiler.  \<open>plain_pathToRegexp\<close> follows the library
  (version 8, default options) on the templates made of literal characters and of
  parameters \<open>:name\<close> that fill a whole segment: a parameter matches a non-empty run of
  characters other than the separator, literal characters match without regard to the
  case of ASCII letters, one trailing separator is allowed, and the whole pathname must
  be matched.  On every other template (groups, wildcards, quoted names, escapes, a
  parameter beside other text in its segment) it is not a model of the library: it
  rejects them all, whereas the library accepts some.  It is used at plain templates only.
\<close>

datatype token = Lit char | Param string

definition reserved :: "char \<Rightarrow> bool" where
  "reserved c = (of_char c \<in> {123, 125, 40, 41, 91, 93, 43, 63, 33, 58, 42, 92 :: nat})"

definition id_start :: "char \<Rightarrow> bool" where
  "id_start c =
     (let n = of_char c :: nat in
      (65 \<le> n \<and> n \<le> 90) \<or> (97 \<le> n \<and> n \<le> 122) \<or> n = 36 \<or> n = 95)"

definition id_continue :: "char \<Rightarrow> bool" where
  "id_continue c = (id_start c \<or> (48 \<le> (of_char c :: nat) \<and> (of_char c :: nat) \<le> 57))"

text \<open>The flag tells whether the next character starts a segment.\<close>

function parse_template :: "bool \<Rightarrow> string \<Rightarrow> token list option" where
  "parse_template seg [] = Some []"
| "parse_template seg (c # cs) =
     (if c = CHR '':'' then
        (if seg \<and> takeWhile id_continue cs \<noteq> [] \<and> id_start (hd cs)
            \<and> (dropWhile id_continue cs = [] \<or> hd (dropWhile id_continue cs) = CHR ''/'')
         then map_option ((#) (Param (takeWhile id_continue cs)))
                (parse_template False (dropWhile id_continue cs))
         else None)
      else if reserved c then None
      else map_option ((#) (Lit c)) (parse_template (c = CHR ''/'') cs))"
  by pat_completeness auto
termination
  by (relation "measure (\<lambda>(seg, t). length t)") (auto simp: le_imp_less_Suc length_dropWhile_le)

definition lower :: "char \<Rightarrow> char" where
  "lower c = (let n = of_char c :: nat in if 65 \<le> n \<and> n \<le> 90 then char_of (n + 32) else c)"

fun match_tokens :: "token list \<Rightarrow> string \<Rightarrow> string option list option" where
  "match_tokens [] s = (if s = [] \<or> s = ''/'' then Some [] else None)"
| "match_tokens (Lit c # ts) [] = None"
| "match_tokens (Lit c # ts) (d # ds) = (if lower d = lower c then match_tokens ts ds else None)"
| "match_tokens (Param n # ts) s =
     (if takeWhile (\<lambda>c. c \<noteq> CHR ''/'') s = [] then None
      else map_option ((#) (Some (takeWhile (\<lambda>c. c \<noteq> CHR ''/'') s)))
             (match_tokens ts (dropWhile (\<lambda>c. c \<noteq> CHR ''/'') s)))"

fun param_names :: "token list \<Rightarrow> string list" where
  "param_names [] = []"
| "param_names (Lit c # ts) = param_names ts"
| "param_names (Param n # ts) = n # param_names ts"

definition plain_pathToRegexp :: compiler where
  "plain_pathToRegexp template =
     (case parse_template True template of
        None \<Rightarrow> None
      | Some ts \<Rightarrow> Some \<lparr>regexp = match_tokens ts, keys = param_names ts\<rparr>)"

section \<open>Example configurations\<close>

text \<open>Routes without name, component, redirect or meta.\<close>

definition node :: "string \<Rightarrow> (unit, unit) IRoute list \<Rightarrow> (unit, unit) IRoute" where
  "node p chs = IRoute None p None chs None None"

definition nested_routes :: "(unit, unit) IRoute list" where
  "nested_routes = [node ''parent'' [node ''child'' []]]"


text \<open>
  Guards and hooks that record their calls in the world, which is the list of the calls
  made so far: who was called, and with which \<open>from\<close> and \<open>to\<close>.
\<close>

type_synonym calls = "(string \<times> string \<times> string) list"

definition record_call :: "string \<Rightarrow> string \<Rightarrow> string \<Rightarrow> calls env \<Rightarrow> calls env" where
  "record_call who from to s = s\<lparr>world := world s @ [(who, from, to)]\<rparr>"

definition allow :: "string \<Rightarrow> calls NavigationGuard" where
  "allow who from to s = (Resolves (GBool True), record_call who from to s)"

definition cancel :: "string \<Rightarrow> calls NavigationGuard" where
  "cancel who from to s = (Resolves (GBool False), record_call who from to s)"

definition failing :: "string \<Rightarrow> calls NavigationGuard" where
  "failing who from to s = (Rejects ''boom'', record_call who from to s)"



definition observe :: "calls AfterEachHook" where
  "observe from to s = (Returns, record_call ''hook'' from to s)"

definition page :: "string \<Rightarrow> IRouterModeAdapter option \<Rightarrow> calls env" where
  "page p a =
     \<lparr>location = \<lparr>loc_origin = ''https://example.com'', loc_pathname = p,
                   loc_search = [], loc_hash = []\<rparr>,
      entries = [''https://example.com'' @ p],
      currentAdapter = a,
      href = ''https://example.com'' @ p,
      console = [],
      world = []\<rparr>"





text \<open>
  A page whose world holds the array of registered guards and the list of the calls
  made, and three guards that record their calls: guard 1 allows, guard 2 cancels,
  guard 3 allows.  In \<open>one_shot_table\<close> guard 1 is registered for one navigation only:
  it calls its own remover before it allows.
\<close>

definition live_page :: "gid list \<Rightarrow> calls \<Rightarrow> calls live" where
  "live_page gs cs =
     \<lparr>location = \<lparr>loc_origin = ''https://example.com'', loc_pathname = ''/a'',
                   loc_search = [], loc_hash = []\<rparr>,
      entries = [''https://example.com/a''],
      currentAdapter = None,
      href = ''https://example.com/a'',
      console = [],
      world = (gs, cs)\<rparr>"

definition note_call :: "string \<Rightarrow> string \<Rightarrow> string \<Rightarrow> calls live \<Rightarrow> calls live" where
  "note_call who from to s = s\<lparr>world := (fst (world s), snd (world s) @ [(who, from, to)])\<rparr>"

definition plain_table :: "calls guard_table" where
  "plain_table guard from to s =
     (if guard = 1 then (Resolves (GBool True), note_call ''g1'' from to s)
      else if guard = 2 then (Resolves (GBool False), note_call ''g2'' from to s)
      else (Resolves (GBool True), note_call ''g3'' from to s))"

definition one_shot_table :: "calls guard_table" where
  "one_shot_table guard from to s =
     (if guard = 1 then (Resolves (GBool True), remover 1 (note_call ''g1'' from to s))
      else if guard = 2 then (Resolves (GBool False), note_call ''g2'' from to s)
      else (Resolves (GBool True), note_call ''g3'' from to s))"


section \<open>Notions used in the statements and proofs\<close>

text \<open>A string without two separators in a row, and the normal form of a path.\<close>

fun nodbl :: "string \<Rightarrow> bool" where
  "nodbl [] = True"
| "nodbl [c] = True"
| "nodbl (c # d # cs) = (\<not> (c = CHR ''/'' \<and> d = CHR ''/'') \<and> nodbl (d # cs))"

definition canonical :: "string \<Rightarrow> bool" where
  "canonical s \<longleftrightarrow> startsWith s ''/'' \<and> nodbl s \<and> (s = ''/'' \<or> \<not> endsWith s ''/'')"

text \<open>
  The node is handled by the root branch of the two matching loops: its own path is the
  separator and it is examined at the top level.
\<close>

definition is_root :: "string \<Rightarrow> ('c, 'v) IRoute \<Rightarrow> bool" where
  "is_root prefix r \<longleftrightarrow> path r = ''/'' \<and> prefix = []"

text \<open>The match a node other than the root yields for itself.\<close>

definition own_match :: "string \<Rightarrow> ('c, 'v) IRoute \<Rightarrow> params \<Rightarrow> ('c, 'v) MatchedRoute" where
  "own_match prefix r ps =
     \<lparr>route = r, matched_path = fullPath prefix r, params = ps, matched_meta = meta_or_empty r\<rparr>"

text \<open>
  What one iteration of the loop of \<open>matchRoute\<close> does with the node it examines:
  it throws, it returns a match, or (\<open>Inr None\<close>) it goes on to the next node.
\<close>

definition matchRoute_node ::
  "compiler \<Rightarrow> ('c, 'v) IRoute \<Rightarrow> string \<Rightarrow> string \<Rightarrow> error + ('c, 'v) MatchedRoute option" where
  "matchRoute_node ptr r np prefix =
     (if is_root prefix r then
        (case matchRoute ptr (children r) np ''/'' of
           Inl e \<Rightarrow> Inl e
         | Inr (Some m) \<Rightarrow> Inr (Some m)
         | Inr None \<Rightarrow> if np = ''/'' then Inr (Some (root_match r)) else Inr None)
      else
        (case getRegexp ptr (fullPath prefix r) of
           Inl e \<Rightarrow> Inl e
         | Inr re \<Rightarrow>
             (case matchRoute ptr (children r) np (fullPath prefix r) of
                Inl e \<Rightarrow> Inl e
              | Inr (Some m) \<Rightarrow> Inr (Some m)
              | Inr None \<Rightarrow>
                  if test re np then
                    (case extractParams ptr (fullPath prefix r) np of
                       Inl e \<Rightarrow> Inl e
                     | Inr ps \<Rightarrow> Inr (Some (own_match prefix r ps)))
                  else Inr None)))"

text \<open>The same for the loop of \<open>findMatchingRoutes\<close>.\<close>

definition findMatchingRoutes_node ::
  "compiler \<Rightarrow> ('c, 'v) IRoute \<Rightarrow> string \<Rightarrow> string \<Rightarrow> error + ('c, 'v) MatchedRoute list option" where
  "findMatchingRoutes_node ptr r np prefix =
     (if is_root prefix r then
        (case findMatchingRoutes ptr (children r) np ''/'' of
           Inl e \<Rightarrow> Inl e
         | Inr cm \<Rightarrow>
             if cm \<noteq> [] then Inr (Some (root_match r # cm))
             else if np = ''/'' then Inr (Some [root_match r])
             else Inr None)
      else
        (case getRegexp ptr (fullPath prefix r) of
           Inl e \<Rightarrow> Inl e
         | Inr re \<Rightarrow>
             if test re np \<or> startsWith np (fullPath prefix r) then
               (case extractParams ptr (fullPath prefix r) np of
                  Inl e \<Rightarrow> Inl e
                | Inr ps \<Rightarrow>
                    (case findMatchingRoutes ptr (children r) np (fullPath prefix r) of
                       Inl e \<Rightarrow> Inl e
                     | Inr cm \<Rightarrow> Inr (Some (own_match prefix r ps # cm))))
             else Inr None))"


text \<open>
  The groups the extraction loop reads: the defined ones among the first as many as
  there are keys, each with its key.  They are decodable when the decoder accepts each.
\<close>

fun captured :: "string list \<Rightarrow> string option list \<Rightarrow> (string \<times> string) list" where
  "captured (key # ks) (Some v # caps) = (key, v) # captured ks caps"
| "captured (key # ks) (None # caps) = captured ks caps"
| "captured ks caps = []"

definition decodable :: "string list \<Rightarrow> string option list \<Rightarrow> bool" where
  "decodable ks caps \<longleftrightarrow> (\<forall>(key, v) \<in> set (captured ks caps). decodeURIComponent v \<noteq> None)"

text \<open>
  A guard outcome that lets the pipeline go on to the next guard: \<open>true\<close> or no value.
\<close>

definition affirmative :: "awaited \<Rightarrow> bool" where
  "affirmative a \<longleftrightarrow> a = Resolves (GBool True) \<or> a = Resolves GVoid"

text \<open>
  The first two steps of \<open>push\<close> and \<open>replace\<close>: the adapter they hold, the state in
  which the guards run, and the path they pass to the guards as \<open>from\<close>.
\<close>

definition held_adapter :: "'w env \<Rightarrow> IRouterModeAdapter" where
  "held_adapter s = fst (getRouterMode s)"

definition entry_state :: "'w env \<Rightarrow> 'w env" where
  "entry_state s = snd (getCurrentPathname (snd (getRouterMode s)))"

definition from_path :: "'w env \<Rightarrow> string" where
  "from_path s = fst (getCurrentPathname (snd (getRouterMode s)))"




text \<open>No guard registered in the state edits the array of registered guards.\<close>

definition registry_stable :: "'u guard_table \<Rightarrow> 'u live \<Rightarrow> bool" where
  "registry_stable table s \<longleftrightarrow>
     (\<forall>guard \<in> set (registered s). \<forall>f t x. registered (snd (table guard f t x)) = registered x)"

text \<open>A guard that leaves the browser and the URL state alone.\<close>

definition quiet :: "'w NavigationGuard \<Rightarrow> bool" where
  "quiet g \<longleftrightarrow>
     (\<forall>f t x. location (snd (g f t x)) = location x \<and> entries (snd (g f t x)) = entries x
              \<and> href (snd (g f t x)) = href x)"

section \<open>Path normalisation: proofs\<close>

lemma includes_str_iff: "includes_str s t \<longleftrightarrow> (\<exists>xs ys. s = xs @ t @ ys)"
proof (induction s)
  case Nil then show ?case by auto
next
  case (Cons c cs)
  show ?case
  proof
    assume "includes_str (c # cs) t"
    then consider "startsWith (c # cs) t" | "includes_str cs t" by auto
    then show "\<exists>xs ys. c # cs = xs @ t @ ys"
    proof cases
      case 1
      then have "c # cs = [] @ t @ drop (length t) (c # cs)"
        unfolding startsWith_def by (metis append_Nil append_take_drop_id)
      then show ?thesis by blast
    next
      case 2
      then obtain xs ys where "cs = xs @ t @ ys" using Cons.IH by blast
      then have "c # cs = (c # xs) @ t @ ys" by simp
      then show ?thesis by blast
    qed
  next
    assume "\<exists>xs ys. c # cs = xs @ t @ ys"
    then obtain xs ys where e: "c # cs = xs @ t @ ys" by blast
    show "includes_str (c # cs) t"
    proof (cases xs)
      case Nil
      then have "startsWith (c # cs) t" using e by (simp add: startsWith_def)
      then show ?thesis by simp
    next
      case (Cons x xs')
      then have "cs = xs' @ t @ ys" using e by simp
      then show ?thesis using Cons.IH by auto
    qed
  qed
qed

lemma nodbl_includes: "nodbl s \<longleftrightarrow> \<not> includes_str s ''//''"
  by (induction s rule: nodbl.induct) (auto simp: startsWith_def)

lemma hd_collapse: "collapse_slashes (c # cs) \<noteq> [] \<and> hd (collapse_slashes (c # cs)) = c"
  by (induction "c # cs" arbitrary: c cs rule: collapse_slashes.induct) auto

lemma nodbl_collapse: "nodbl (collapse_slashes s)"
proof (induction s rule: collapse_slashes.induct)
  case (3 c d cs)
  then show ?case using hd_collapse[of d cs]
    by (cases "collapse_slashes (d # cs)") auto
qed auto

lemma collapse_id: "nodbl s \<Longrightarrow> collapse_slashes s = s"
  by (induction s rule: collapse_slashes.induct) auto

lemma nodbl_butlast: "nodbl s \<Longrightarrow> nodbl (butlast s)"
  by (induction s rule: nodbl.induct) (auto split: if_splits)

lemma nodbl_last2: "nodbl (s @ ''/'') \<Longrightarrow> s \<noteq> [] \<Longrightarrow> last s \<noteq> CHR ''/''"
  by (induction s rule: nodbl.induct) (auto split: if_splits)

lemma nodbl_cons: "nodbl s \<Longrightarrow> \<not> startsWith s ''/'' \<Longrightarrow> nodbl (CHR ''/'' # s)"
  by (cases s) (auto simp: startsWith_def)

lemma endsWith_slash: "endsWith s ''/'' \<longleftrightarrow> s \<noteq> [] \<and> last s = CHR ''/''"
proof (cases s rule: rev_cases)
  case Nil then show ?thesis by (simp add: endsWith_def)
next
  case (snoc ys y) then show ?thesis by (auto simp: endsWith_def)
qed

lemma startsWith_slash: "startsWith s ''/'' \<longleftrightarrow> (\<exists>r. s = CHR ''/'' # r)"
  by (cases s) (auto simp: startsWith_def)

lemma strip_canonical:
  assumes "nodbl n" "startsWith n ''/''"
  shows "canonical (if length n > 1 \<and> endsWith n ''/'' then take (length n - 1) n else n)"
proof (cases "length n > 1 \<and> endsWith n ''/''")
  case False
  then have "n = ''/'' \<or> \<not> endsWith n ''/''"
    using assms(2) by (cases n) (auto simp: startsWith_def)
  with False assms show ?thesis by (auto simp: canonical_def)
next
  case True
  then obtain ys where n: "n = ys @ ''/''" and ys: "ys \<noteq> []"
    by (cases n rule: rev_cases) (auto simp: endsWith_slash)
  have b: "take (length n - 1) n = ys" using n by simp
  have 1: "nodbl ys" using nodbl_butlast[OF assms(1)] n by simp
  have 2: "last ys \<noteq> CHR ''/''" using nodbl_last2 assms(1) n ys by blast
  have 3: "startsWith ys ''/''" using assms(2) n ys by (cases ys) (auto simp: startsWith_def)
  show ?thesis using True b 1 2 3 ys by (simp add: canonical_def endsWith_slash)
qed

lemma canonical_normalizePath: "canonical (normalizePath p)"
proof (cases "p = [] \<or> p = ''/''")
  case True then show ?thesis by (auto simp: normalizePath_def canonical_def startsWith_def)
next
  case False
  let ?n1 = "collapse_slashes p"
  let ?n2 = "if startsWith ?n1 ''/'' then ?n1 else ''/'' @ ?n1"
  have a: "nodbl ?n2" using nodbl_collapse[of p] nodbl_cons[of ?n1] by auto
  have b: "startsWith ?n2 ''/''" by (auto simp: startsWith_def)
  show ?thesis using False strip_canonical[OF a b] by (simp add: normalizePath_def Let_def)
qed

lemma normalizePath_canonical: "canonical s \<Longrightarrow> normalizePath s = s"
  by (auto simp: canonical_def normalizePath_def Let_def collapse_id endsWith_slash startsWith_slash)

lemma normalizePath_idem: "normalizePath (normalizePath p) = normalizePath p"
  by (simp add: canonical_normalizePath normalizePath_canonical)

subsection \<open>Claim C7\<close>

text \<open>
  C7.  For every string \<open>p\<close>: normalising twice gives what normalising once gives; the
  result starts with the separator; it contains no two separators in a row; the empty
  string and the bare separator both give the root; and the result is the root or does
  not end with the separator.
\<close>
theorem normalizePath_normal_form:
  "normalizePath (normalizePath p) = normalizePath p
   \<and> startsWith (normalizePath p) ''/''
   \<and> \<not> includes_str (normalizePath p) ''//''
   \<and> normalizePath [] = ''/'' \<and> normalizePath ''/'' = ''/''
   \<and> (normalizePath p = ''/'' \<or> \<not> endsWith (normalizePath p) ''/'')"
  using canonical_normalizePath[of p] normalizePath_canonical[of "normalizePath p"]
  by (simp add: canonical_def nodbl_includes normalizePath_def)

text \<open>The theorem at \<open>users//1/\<close>, whose normal form is not the root.\<close>

theorem normalizePath_normal_form_witness:
  "normalizePath ''users//1/'' = ''/users/1''
   \<and> normalizePath (normalizePath ''users//1/'') = normalizePath ''users//1/''
   \<and> \<not> endsWith (normalizePath ''users//1/'') ''/''"
  using normalizePath_normal_form[of "''users//1/''"]
  by (simp add: normalizePath_def startsWith_def endsWith_def)

lemma matchRoute_normalized:
  "matchRoute ptr routes (normalizePath p) prefix = matchRoute ptr routes p prefix"
  by (simp add: normalizePath_idem)

lemma findMatchingRoutes_normalized:
  "findMatchingRoutes ptr routes (normalizePath p) prefix = findMatchingRoutes ptr routes p prefix"
  by (simp add: normalizePath_idem)

subsection \<open>Claim C10\<close>

text \<open>
  C10.  For every compiler, route forest, pathname and prefix, \<open>matchRoute\<close> returns
  on the pathname what it returns on the normalised pathname, and so does
  \<open>findMatchingRoutes\<close>: both normalise the pathname on entry, and normalisation is
  idempotent.
\<close>

theorem matching_invariant_under_normalizePath:
  "matchRoute ptr routes p prefix = matchRoute ptr routes (normalizePath p) prefix
   \<and> findMatchingRoutes ptr routes p prefix = findMatchingRoutes ptr routes (normalizePath p) prefix"
  by (simp add: normalizePath_idem)

section \<open>Route matching: the loops, node by node\<close>

lemma matchRoute_Nil: "matchRoute ptr [] p prefix = Inr None"
  by simp

lemma matchRoute_loop_Cons:
  "matchRoute_loop ptr (r # rest) np prefix =
     (if is_root prefix r then
        (case matchRoute ptr (children r) np ''/'' of
           Inl e \<Rightarrow> Inl e
         | Inr (Some m) \<Rightarrow> Inr (Some m)
         | Inr None \<Rightarrow>
             if np = ''/'' then Inr (Some (root_match r))
             else matchRoute_loop ptr rest np prefix)
      else
        (case getRegexp ptr (fullPath prefix r) of
           Inl e \<Rightarrow> Inl e
         | Inr re \<Rightarrow>
             (case matchRoute ptr (children r) np (fullPath prefix r) of
                Inl e \<Rightarrow> Inl e
              | Inr (Some m) \<Rightarrow> Inr (Some m)
              | Inr None \<Rightarrow>
                  if test re np then
                    (case extractParams ptr (fullPath prefix r) np of
                       Inl e \<Rightarrow> Inl e
                     | Inr ps \<Rightarrow> Inr (Some (own_match prefix r ps)))
                  else matchRoute_loop ptr rest np prefix)))"
proof (cases r)
  case (IRoute nm p cmp chs red mt)
  have ch: "(if chs \<noteq> [] then matchRoute ptr chs np x else Inr None) = matchRoute ptr chs np x" for x
    by simp
  have chs: "children r = chs" and pr: "path r = p" using IRoute by simp_all
  show ?thesis
  proof (cases "is_root prefix r")
    case True
    then have c: "p = ''/'' \<and> prefix = []" by (simp add: is_root_def pr)
    have "matchRoute_loop ptr (r # rest) np prefix =
        (case matchRoute ptr chs np ''/'' of
           Inl e \<Rightarrow> Inl e
         | Inr None \<Rightarrow>
             if np = ''/'' then Inr (Some (root_match r))
             else matchRoute_loop ptr rest np prefix
         | Inr (Some m) \<Rightarrow> Inr (Some m))"
      by (simp only: IRoute matchRoute_loop.simps(2) Let_def ch c if_True simp_thms)
    then show ?thesis using True by (simp only: chs if_True)
  next
    case False
    then have c: "\<not> (p = ''/'' \<and> prefix = [])" by (simp add: is_root_def pr)
    have e: "matchRoute_loop ptr (r # rest) np prefix =
          (case getRegexp ptr (fullPath prefix r) of
             Inl e \<Rightarrow> Inl e
           | Inr re \<Rightarrow>
               if test re np then
                 (case matchRoute ptr chs np (fullPath prefix r) of
                    Inl e \<Rightarrow> Inl e
                  | Inr None \<Rightarrow>
                      (case extractParams ptr (fullPath prefix r) np of
                         Inl e \<Rightarrow> Inl e
                       | Inr ps \<Rightarrow> Inr (Some (own_match prefix r ps)))
                  | Inr (Some m) \<Rightarrow> Inr (Some m))
               else
                 (case matchRoute ptr chs np (fullPath prefix r) of
                    Inl e \<Rightarrow> Inl e
                  | Inr None \<Rightarrow> matchRoute_loop ptr rest np prefix
                  | Inr (Some m) \<Rightarrow> Inr (Some m)))"
      by (simp only: IRoute matchRoute_loop.simps(2) Let_def ch c if_False own_match_def)
    show ?thesis
      unfolding e if_not_P[OF False] chs
      by (simp del: matchRoute.simps split: sum.splits option.splits)
  qed
qed


lemma findMatchingRoutes_loop_Cons:
  "findMatchingRoutes_loop ptr (r # rest) np prefix =
     (if is_root prefix r then
        (case findMatchingRoutes ptr (children r) np ''/'' of
           Inl e \<Rightarrow> Inl e
         | Inr cm \<Rightarrow>
             if cm \<noteq> [] then Inr (root_match r # cm)
             else if np = ''/'' then Inr [root_match r]
             else findMatchingRoutes_loop ptr rest np prefix)
      else
        (case getRegexp ptr (fullPath prefix r) of
           Inl e \<Rightarrow> Inl e
         | Inr re \<Rightarrow>
             if test re np \<or> startsWith np (fullPath prefix r) then
               (case extractParams ptr (fullPath prefix r) np of
                  Inl e \<Rightarrow> Inl e
                | Inr ps \<Rightarrow>
                    (case findMatchingRoutes ptr (children r) np (fullPath prefix r) of
                       Inl e \<Rightarrow> Inl e
                     | Inr cm \<Rightarrow> Inr (own_match prefix r ps # cm)))
             else findMatchingRoutes_loop ptr rest np prefix))"
proof (cases r)
  case (IRoute nm p cmp chs red mt)
  have ch: "(if chs \<noteq> [] then findMatchingRoutes ptr chs np x else Inr []) = findMatchingRoutes ptr chs np x" for x
    by simp
  have chs: "children r = chs" and pr: "path r = p" using IRoute by simp_all
  show ?thesis
  proof (cases "is_root prefix r")
    case True
    then have c: "p = ''/'' \<and> prefix = []" by (simp add: is_root_def pr)
    show ?thesis
      unfolding if_P[OF True] chs
      by (simp only: IRoute findMatchingRoutes_loop.simps(2) Let_def ch c if_True simp_thms)
  next
    case False
    then have c: "\<not> (p = ''/'' \<and> prefix = [])" by (simp add: is_root_def pr)
    show ?thesis
      unfolding if_not_P[OF False] chs
      by (simp only: IRoute findMatchingRoutes_loop.simps(2) Let_def ch c if_False own_match_def)
  qed
qed

lemma matchRoute_loop_node:
  "matchRoute_loop ptr (r # rest) np prefix =
     (case matchRoute_node ptr r np prefix of
        Inl e \<Rightarrow> Inl e
      | Inr (Some m) \<Rightarrow> Inr (Some m)
      | Inr None \<Rightarrow> matchRoute_loop ptr rest np prefix)"
proof (cases "is_root prefix r")
  case True
  show ?thesis
    unfolding matchRoute_loop_Cons matchRoute_node_def if_P[OF True]
    by (cases "np = ''/''") (simp_all del: matchRoute.simps split: sum.splits option.splits)
next
  case False
  show ?thesis
  proof (cases "getRegexp ptr (fullPath prefix r)")
    case (Inl e)
    then show ?thesis
      unfolding matchRoute_loop_Cons matchRoute_node_def if_not_P[OF False] by simp
  next
    case (Inr re)
    show ?thesis
      unfolding matchRoute_loop_Cons matchRoute_node_def if_not_P[OF False] Inr
      by (cases "test re np") (simp_all del: matchRoute.simps split: sum.splits option.splits)
  qed
qed

lemma findMatchingRoutes_loop_node:
  "findMatchingRoutes_loop ptr (r # rest) np prefix =
     (case findMatchingRoutes_node ptr r np prefix of
        Inl e \<Rightarrow> Inl e
      | Inr (Some ms) \<Rightarrow> Inr ms
      | Inr None \<Rightarrow> findMatchingRoutes_loop ptr rest np prefix)"
proof (cases "is_root prefix r")
  case True
  show ?thesis
  proof (cases "findMatchingRoutes ptr (children r) np ''/''")
    case (Inl e)
    then show ?thesis
      unfolding findMatchingRoutes_loop_Cons findMatchingRoutes_node_def if_P[OF True] by simp
  next
    case (Inr cm)
    show ?thesis
      unfolding findMatchingRoutes_loop_Cons findMatchingRoutes_node_def if_P[OF True] Inr
      by (cases "cm \<noteq> []"; cases "np = ''/''") (simp_all del: findMatchingRoutes.simps)
  qed
next
  case False
  show ?thesis
  proof (cases "getRegexp ptr (fullPath prefix r)")
    case (Inl e)
    then show ?thesis
      unfolding findMatchingRoutes_loop_Cons findMatchingRoutes_node_def if_not_P[OF False] by simp
  next
    case (Inr re)
    show ?thesis
      unfolding findMatchingRoutes_loop_Cons findMatchingRoutes_node_def if_not_P[OF False] Inr
      by (cases "test re np \<or> startsWith np (fullPath prefix r)")
         (simp_all del: findMatchingRoutes.simps split: sum.splits)
  qed
qed

lemma matchRoute_loop_append:
  "matchRoute_loop ptr pre np prefix = Inr None \<Longrightarrow>
   matchRoute_loop ptr (pre @ rs) np prefix = matchRoute_loop ptr rs np prefix"
proof (induction pre)
  case Nil
  then show ?case by simp
next
  case (Cons r pre)
  from Cons.prems have n: "matchRoute_node ptr r np prefix = Inr None"
    and "matchRoute_loop ptr pre np prefix = Inr None"
    unfolding matchRoute_loop_node by (simp_all split: sum.splits option.splits)
  then show ?case
    using Cons.IH unfolding append_Cons matchRoute_loop_node by simp
qed

lemma findMatchingRoutes_loop_append:
  "findMatchingRoutes_loop ptr pre np prefix = Inr [] \<Longrightarrow>
   \<forall>r \<in> set pre. findMatchingRoutes_node ptr r np prefix = Inr None \<Longrightarrow>
   findMatchingRoutes_loop ptr (pre @ rs) np prefix = findMatchingRoutes_loop ptr rs np prefix"
proof (induction pre)
  case Nil
  then show ?case by simp
next
  case (Cons r pre)
  then show ?case
    unfolding append_Cons findMatchingRoutes_loop_node by simp
qed


lemma size_children: "size_list size (children r) < size r"
  by (cases r) simp

lemma matchRoute_node_deepest:
  assumes ih: "\<And>x pfx m'. matchRoute ptr (children r) x pfx = Inr (Some m') \<Longrightarrow>
                 matchRoute ptr (children (route m')) x (matched_path m') = Inr None"
    and n: "matchRoute_node ptr r np prefix = Inr (Some m)"
  shows "matchRoute ptr (children (route m)) np (matched_path m) = Inr None"
proof (cases "is_root prefix r")
  case True
  show ?thesis
  proof (cases "matchRoute ptr (children r) np ''/''")
    case (Inl e)
    then show ?thesis using n True by (simp add: matchRoute_node_def del: matchRoute.simps)
  next
    case (Inr res)
    show ?thesis
    proof (cases res)
      case None
      then have "m = root_match r"
        using n True Inr by (simp add: matchRoute_node_def del: matchRoute.simps split: if_splits)
      then show ?thesis using Inr None by (simp add: root_match_def del: matchRoute.simps)
    next
      case (Some m')
      then have "m' = m"
        using n True Inr by (simp add: matchRoute_node_def del: matchRoute.simps)
      then show ?thesis using ih Inr Some by blast
    qed
  qed
next
  case False
  show ?thesis
  proof (cases "getRegexp ptr (fullPath prefix r)")
    case (Inl e)
    then show ?thesis using n False by (simp add: matchRoute_node_def del: matchRoute.simps)
  next
    case re: (Inr re)
    show ?thesis
    proof (cases "matchRoute ptr (children r) np (fullPath prefix r)")
      case (Inl e)
      then show ?thesis using n False re by (simp add: matchRoute_node_def del: matchRoute.simps)
    next
      case (Inr res)
      show ?thesis
      proof (cases res)
        case None
        then obtain ps where "m = own_match prefix r ps"
          using n False re Inr
          by (auto simp add: matchRoute_node_def simp del: matchRoute.simps split: if_splits sum.splits)
        then show ?thesis using Inr None by (simp add: own_match_def del: matchRoute.simps)
      next
        case (Some m')
        then have "m' = m"
          using n False re Inr by (simp add: matchRoute_node_def del: matchRoute.simps)
        then show ?thesis using ih Inr Some by blast
      qed
    qed
  qed
qed

lemma matchRoute_loop_deepest:
  "matchRoute_loop ptr routes np prefix = Inr (Some m) \<Longrightarrow>
   matchRoute ptr (children (route m)) np (matched_path m) = Inr None"
proof (induction routes arbitrary: np prefix m rule: measure_induct_rule[where f = "size_list size"])
  case (less routes)
  show ?case
  proof (cases routes)
    case Nil
    then show ?thesis using less.prems by simp
  next
    case (Cons r rest)
    have small: "size_list size (children r) < size_list size routes"
      using size_children[of r] Cons by simp
    have ih: "matchRoute ptr (children (route m')) x (matched_path m') = Inr None"
      if "matchRoute ptr (children r) x pfx = Inr (Some m')" for x pfx m'
    proof -
      from that have "matchRoute_loop ptr (children r) (normalizePath x) pfx = Inr (Some m')"
        by simp
      from less.IH[OF small this]
      show ?thesis by (simp only: matchRoute_normalized)
    qed
    show ?thesis
    proof (cases "matchRoute_node ptr r np prefix")
      case (Inl e)
      then show ?thesis using less.prems Cons by (simp add: matchRoute_loop_node del: matchRoute.simps matchRoute_loop.simps)
    next
      case (Inr res)
      show ?thesis
      proof (cases res)
        case None
        then have "matchRoute_loop ptr rest np prefix = Inr (Some m)"
          using less.prems Cons Inr by (simp add: matchRoute_loop_node del: matchRoute.simps matchRoute_loop.simps)
        moreover have "size_list size rest < size_list size routes" using Cons by simp
        ultimately show ?thesis using less.IH by blast
      next
        case (Some m')
        then have "m' = m"
          using less.prems Cons Inr by (simp add: matchRoute_loop_node del: matchRoute.simps matchRoute_loop.simps)
        then show ?thesis using matchRoute_node_deepest[of ptr r np prefix m] ih Inr Some by blast
      qed
    qed
  qed
qed

section \<open>The nested example, evaluated\<close>

lemma parse_parent: "parse_template True ''/parent'' = Some (map Lit ''/parent'')"
  by code_simp
lemma parse_parent_child: "parse_template True ''/parent/child'' = Some (map Lit ''/parent/child'')"
  by code_simp

lemma np1: "normalizePath ''/parent/child'' = ''/parent/child''"
  by code_simp

lemma fp1: "fullPath [] (node ''parent'' chs) = ''/parent''"
  unfolding fullPath_def node_def by (simp, code_simp)

lemma fp2: "fullPath ''/parent'' (node ''child'' chs) = ''/parent/child''"
  unfolding fullPath_def node_def by (simp, code_simp)

lemma t1: "match_tokens (map Lit ''/parent'') ''/parent/child'' = None"
  by code_simp
lemma t2: "match_tokens (map Lit ''/parent/child'') ''/parent/child'' = Some []"
  by code_simp

lemma node_sel: "path (node p chs) = p" "children (node p chs) = chs" "meta (node p chs) = None"
  by (simp_all add: node_def)

lemma plain_literal:
  "parse_template True t = Some ts \<Longrightarrow>
   getRegexp plain_pathToRegexp t = Inr (match_tokens ts) \<and> getKeys plain_pathToRegexp t = Inr (param_names ts)"
  by (simp add: getRegexp_def getKeys_def plain_pathToRegexp_def)

lemmas eval_node = matchRoute_loop_node matchRoute_node_def findMatchingRoutes_loop_node
  findMatchingRoutes_node_def is_root_def node_sel test_def extractParams_def own_match_def
  root_match_def meta_or_empty_def

lemma nested_child:
  "matchRoute plain_pathToRegexp [node ''child'' []] ''/parent/child'' ''/parent'' =
     Inr (Some \<lparr>route = node ''child'' [], matched_path = ''/parent/child'',
                params = Map.empty, matched_meta = Map.empty\<rparr>)"
  by (simp add: eval_node np1 fp2 plain_literal[OF parse_parent_child] t2
      del: matchRoute_loop.simps(2))

lemma nested_matchRoute:
  "matchRoute plain_pathToRegexp nested_routes ''/parent/child'' [] =
     Inr (Some \<lparr>route = node ''child'' [], matched_path = ''/parent/child'',
                params = Map.empty, matched_meta = Map.empty\<rparr>)"
proof -
  have "matchRoute_node plain_pathToRegexp (node ''parent'' [node ''child'' []]) ''/parent/child'' [] =
     Inr (Some \<lparr>route = node ''child'' [], matched_path = ''/parent/child'',
                params = Map.empty, matched_meta = Map.empty\<rparr>)"
    unfolding matchRoute_node_def
    by (simp add: is_root_def node_sel fp1 plain_literal[OF parse_parent] nested_child
        del: matchRoute.simps)
  then show ?thesis
    by (simp add: nested_routes_def matchRoute_loop_node np1 del: matchRoute_loop.simps(2))
qed

lemma st1: "startsWith ''/parent/child'' ''/parent''"
  by code_simp

lemma nested_child_all:
  "findMatchingRoutes plain_pathToRegexp [node ''child'' []] ''/parent/child'' ''/parent'' =
     Inr [\<lparr>route = node ''child'' [], matched_path = ''/parent/child'',
                params = Map.empty, matched_meta = Map.empty\<rparr>]"
  by (simp add: eval_node np1 fp2 plain_literal[OF parse_parent_child] t2
      del: findMatchingRoutes_loop.simps(2))

lemma nested_findMatchingRoutes:
  "findMatchingRoutes plain_pathToRegexp nested_routes ''/parent/child'' [] =
     Inr [\<lparr>route = node ''parent'' [node ''child'' []], matched_path = ''/parent'',
            params = Map.empty, matched_meta = Map.empty\<rparr>,
          \<lparr>route = node ''child'' [], matched_path = ''/parent/child'',
            params = Map.empty, matched_meta = Map.empty\<rparr>]"
proof -
  have "findMatchingRoutes_node plain_pathToRegexp (node ''parent'' [node ''child'' []]) ''/parent/child'' [] =
     Inr (Some [\<lparr>route = node ''parent'' [node ''child'' []], matched_path = ''/parent'',
            params = Map.empty, matched_meta = Map.empty\<rparr>,
          \<lparr>route = node ''child'' [], matched_path = ''/parent/child'',
            params = Map.empty, matched_meta = Map.empty\<rparr>])"
    unfolding findMatchingRoutes_node_def
    by (simp add: is_root_def node_sel fp1 plain_literal[OF parse_parent] nested_child_all st1 t1
         test_def extractParams_def own_match_def meta_or_empty_def
        del: findMatchingRoutes.simps)
  then show ?thesis
    by (simp add: nested_routes_def findMatchingRoutes_loop_node np1 del: findMatchingRoutes_loop.simps(2))
qed

lemma np_root: "normalizePath ''/'' = ''/''"
  by (simp add: normalizePath_def)

subsection \<open>Claim C1\<close>

text \<open>
  C1.  When the loop of \<open>matchRoute\<close> reaches a node (the nodes before it having
  produced neither a match nor an error) whose full path matches the normalised
  pathname, it matches the children first and returns the node's own match only if no
  child matches; this holds for a node other than the root, whose full path is tested
  with the compiled pattern, and for the root at the pathname \<open>/\<close>.  The match that
  \<open>matchRoute\<close> returns is the deepest one: no child of the returned node matches.
  For the routes parent > child, \<open>matchRoute\<close> at \<open>/parent/child\<close> returns the child
  and \<open>findMatchingRoutes\<close> returns parent, child in this order.
\<close>

theorem matchRoute_descendant_first:
  "(matchRoute ptr pre p prefix = Inr None \<and> \<not> is_root prefix r
      \<and> getRegexp ptr (fullPath prefix r) = Inr re \<and> test re (normalizePath p)
    \<longrightarrow> matchRoute ptr (pre @ r # rest) p prefix =
          (case matchRoute ptr (children r) (normalizePath p) (fullPath prefix r) of
             Inl e \<Rightarrow> Inl e
           | Inr (Some m) \<Rightarrow> Inr (Some m)
           | Inr None \<Rightarrow>
               (case extractParams ptr (fullPath prefix r) (normalizePath p) of
                  Inl e \<Rightarrow> Inl e
                | Inr ps \<Rightarrow> Inr (Some (own_match prefix r ps)))))
   \<and> (matchRoute ptr pre' p' prefix' = Inr None \<and> is_root prefix' r' \<and> normalizePath p' = ''/''
    \<longrightarrow> matchRoute ptr (pre' @ r' # rest') p' prefix' =
          (case matchRoute ptr (children r') (normalizePath p') ''/'' of
             Inl e \<Rightarrow> Inl e
           | Inr (Some m) \<Rightarrow> Inr (Some m)
           | Inr None \<Rightarrow> Inr (Some (root_match r'))))
   \<and> (matchRoute ptr routes q pfx = Inr (Some found)
    \<longrightarrow> matchRoute ptr (children (route found)) q (matched_path found) = Inr None)
   \<and> matchRoute plain_pathToRegexp nested_routes ''/parent/child'' [] =
       Inr (Some \<lparr>route = node ''child'' [], matched_path = ''/parent/child'',
                  params = Map.empty, matched_meta = Map.empty\<rparr>)
   \<and> findMatchingRoutes plain_pathToRegexp nested_routes ''/parent/child'' [] =
       Inr [\<lparr>route = node ''parent'' [node ''child'' []], matched_path = ''/parent'',
              params = Map.empty, matched_meta = Map.empty\<rparr>,
            \<lparr>route = node ''child'' [], matched_path = ''/parent/child'',
              params = Map.empty, matched_meta = Map.empty\<rparr>]"
proof (intro conjI impI)
  assume a: "matchRoute ptr pre p prefix = Inr None \<and> \<not> is_root prefix r
      \<and> getRegexp ptr (fullPath prefix r) = Inr re \<and> test re (normalizePath p)"
  then have "matchRoute ptr pre p prefix = Inr None" by blast
  then have "matchRoute_loop ptr pre (normalizePath p) prefix = Inr None"
    by (simp only: matchRoute.simps)
  then have "matchRoute_loop ptr (pre @ r # rest) (normalizePath p) prefix
      = matchRoute_loop ptr (r # rest) (normalizePath p) prefix"
    by (rule matchRoute_loop_append)
  then show "matchRoute ptr (pre @ r # rest) p prefix =
          (case matchRoute ptr (children r) (normalizePath p) (fullPath prefix r) of
             Inl e \<Rightarrow> Inl e
           | Inr (Some m) \<Rightarrow> Inr (Some m)
           | Inr None \<Rightarrow>
               (case extractParams ptr (fullPath prefix r) (normalizePath p) of
                  Inl e \<Rightarrow> Inl e
                | Inr ps \<Rightarrow> Inr (Some (own_match prefix r ps))))"
    using a unfolding matchRoute.simps(1)[of ptr "pre @ r # rest"] matchRoute_loop_Cons
    by (simp del: matchRoute.simps matchRoute_loop.simps)
next
  assume a: "matchRoute ptr pre' p' prefix' = Inr None \<and> is_root prefix' r' \<and> normalizePath p' = ''/''"
  then have "matchRoute ptr pre' p' prefix' = Inr None" by blast
  then have "matchRoute_loop ptr pre' (normalizePath p') prefix' = Inr None"
    by (simp only: matchRoute.simps)
  then have "matchRoute_loop ptr (pre' @ r' # rest') (normalizePath p') prefix'
      = matchRoute_loop ptr (r' # rest') (normalizePath p') prefix'"
    by (rule matchRoute_loop_append)
  then show "matchRoute ptr (pre' @ r' # rest') p' prefix' =
          (case matchRoute ptr (children r') (normalizePath p') ''/'' of
             Inl e \<Rightarrow> Inl e
           | Inr (Some m) \<Rightarrow> Inr (Some m)
           | Inr None \<Rightarrow> Inr (Some (root_match r')))"
    using a unfolding matchRoute.simps(1)[of ptr "pre' @ r' # rest'"] matchRoute_loop_Cons
    by (simp del: matchRoute.simps matchRoute_loop.simps)
next
  assume "matchRoute ptr routes q pfx = Inr (Some found)"
  then have "matchRoute_loop ptr routes (normalizePath q) pfx = Inr (Some found)" by simp
  then have "matchRoute ptr (children (route found)) (normalizePath q) (matched_path found) = Inr None"
    by (rule matchRoute_loop_deepest)
  then show "matchRoute ptr (children (route found)) q (matched_path found) = Inr None"
    by (simp only: matchRoute_normalized)
next
  show "matchRoute plain_pathToRegexp nested_routes ''/parent/child'' [] =
       Inr (Some \<lparr>route = node ''child'' [], matched_path = ''/parent/child'',
                  params = Map.empty, matched_meta = Map.empty\<rparr>)"
    by (rule nested_matchRoute)
next
  show "findMatchingRoutes plain_pathToRegexp nested_routes ''/parent/child'' [] =
       Inr [\<lparr>route = node ''parent'' [node ''child'' []], matched_path = ''/parent'',
              params = Map.empty, matched_meta = Map.empty\<rparr>,
            \<lparr>route = node ''child'' [], matched_path = ''/parent/child'',
              params = Map.empty, matched_meta = Map.empty\<rparr>]"
    by (rule nested_findMatchingRoutes)
qed

text \<open>
  The theorem at the child of the nested example, at a root without children, and at
  the match found in the nested example.
\<close>

theorem matchRoute_descendant_first_witness:
  "(matchRoute plain_pathToRegexp [] ''/parent/child'' ''/parent'' = Inr None
      \<and> \<not> is_root ''/parent'' (node ''child'' [])
      \<and> getRegexp plain_pathToRegexp (fullPath ''/parent'' (node ''child'' []))
            = Inr (match_tokens (map Lit ''/parent/child''))
      \<and> test (match_tokens (map Lit ''/parent/child'')) (normalizePath ''/parent/child''))
   \<and> matchRoute plain_pathToRegexp [node ''child'' []] ''/parent/child'' ''/parent'' =
        Inr (Some (own_match ''/parent'' (node ''child'' []) Map.empty))
   \<and> (matchRoute plain_pathToRegexp [] ''/'' [] = Inr None \<and> is_root [] (node ''/'' [])
        \<and> normalizePath ''/'' = ''/'')
   \<and> matchRoute plain_pathToRegexp [node ''/'' []] ''/'' [] = Inr (Some (root_match (node ''/'' [])))
   \<and> matchRoute plain_pathToRegexp nested_routes ''/parent/child'' [] =
        Inr (Some (own_match ''/parent'' (node ''child'' []) Map.empty))
   \<and> matchRoute plain_pathToRegexp (children (route (own_match ''/parent'' (node ''child'' []) Map.empty)))
        ''/parent/child'' (matched_path (own_match ''/parent'' (node ''child'' []) Map.empty)) = Inr None"
proof -
  have h1: "matchRoute plain_pathToRegexp [] ''/parent/child'' ''/parent'' = Inr None
      \<and> \<not> is_root ''/parent'' (node ''child'' [])
      \<and> getRegexp plain_pathToRegexp (fullPath ''/parent'' (node ''child'' []))
            = Inr (match_tokens (map Lit ''/parent/child''))
      \<and> test (match_tokens (map Lit ''/parent/child'')) (normalizePath ''/parent/child'')"
    by (simp add: is_root_def fp2 plain_literal[OF parse_parent_child] test_def np1 t2)
  have h2: "matchRoute plain_pathToRegexp [] ''/'' [] = Inr None \<and> is_root [] (node ''/'' [])
        \<and> normalizePath ''/'' = ''/''"
    by (simp add: is_root_def node_sel np_root)
  have h3: "matchRoute plain_pathToRegexp nested_routes ''/parent/child'' [] =
        Inr (Some (own_match ''/parent'' (node ''child'' []) Map.empty))"
    by (simp only: nested_matchRoute own_match_def fp2 meta_or_empty_def node_sel option.case)
  note T = matchRoute_descendant_first
  from h1 T[of plain_pathToRegexp "[]" "''/parent/child''" "''/parent''" "node ''child'' []"
      "match_tokens (map Lit ''/parent/child'')" "[]"]
  have "matchRoute plain_pathToRegexp ([] @ [node ''child'' []]) ''/parent/child'' ''/parent'' =
          (case matchRoute plain_pathToRegexp (children (node ''child'' []))
                  (normalizePath ''/parent/child'') (fullPath ''/parent'' (node ''child'' [])) of
             Inl e \<Rightarrow> Inl e
           | Inr (Some m) \<Rightarrow> Inr (Some m)
           | Inr None \<Rightarrow>
               (case extractParams plain_pathToRegexp (fullPath ''/parent'' (node ''child'' []))
                       (normalizePath ''/parent/child'') of
                  Inl e \<Rightarrow> Inl e
                | Inr ps \<Rightarrow> Inr (Some (own_match ''/parent'' (node ''child'' []) ps))))"
    by blast
  then have c1: "matchRoute plain_pathToRegexp [node ''child'' []] ''/parent/child'' ''/parent'' =
        Inr (Some (own_match ''/parent'' (node ''child'' []) Map.empty))"
    by (simp add: node_sel extractParams_def fp2 plain_literal[OF parse_parent_child] t2 np1
        del: matchRoute_loop.simps(2))
  from h2 T[where ptr = plain_pathToRegexp and pre' = "[]" and p' = "''/''" and prefix' = "[]"
       and r' = "node ''/'' []" and rest' = "[]"]
  have "matchRoute plain_pathToRegexp ([] @ [node ''/'' []]) ''/'' [] =
          (case matchRoute plain_pathToRegexp (children (node ''/'' [])) (normalizePath ''/'') ''/'' of
             Inl e \<Rightarrow> Inl e
           | Inr (Some m) \<Rightarrow> Inr (Some m)
           | Inr None \<Rightarrow> Inr (Some (root_match (node ''/'' []))))"
    by blast
  then have c2: "matchRoute plain_pathToRegexp [node ''/'' []] ''/'' [] = Inr (Some (root_match (node ''/'' [])))"
    by (simp add: node_sel np_root del: matchRoute_loop.simps(2))
  from h3 T[where ptr = plain_pathToRegexp and routes = nested_routes and q = "''/parent/child''"
       and pfx = "[]" and found = "own_match ''/parent'' (node ''child'' []) Map.empty"]
  have c3: "matchRoute plain_pathToRegexp (children (route (own_match ''/parent'' (node ''child'' []) Map.empty)))
        ''/parent/child'' (matched_path (own_match ''/parent'' (node ''child'' []) Map.empty)) = Inr None"
    by blast
  from h1 h2 h3 c1 c2 c3 show ?thesis by blast
qed

section \<open>findMatchingRoutes: which nodes are included\<close>



lemma canonical_startsWith_root: "canonical np \<Longrightarrow> startsWith np ''/''"
  by (simp add: canonical_def)



section \<open>The examples with the path \<open>/user\<close>, evaluated\<close>








subsection \<open>Claim C2\<close>




section \<open>Parameter extraction: what the loop returns\<close>

lemma decodable_simps:
  "decodable [] caps"
  "decodable (key # ks) []"
  "decodable (key # ks) (None # caps) \<longleftrightarrow> decodable ks caps"
  "decodable (key # ks) (Some v # caps) \<longleftrightarrow> decodeURIComponent v \<noteq> None \<and> decodable ks caps"
  by (simp_all add: decodable_def)

lemma decodable_Nil: "decodable ks []"
  by (cases ks) (simp_all add: decodable_def)

lemma extractParams_loop_undecodable:
  "\<not> decodable ks caps \<Longrightarrow> extractParams_loop ks caps ps = Inl URIError"
  by (induction ks caps ps rule: extractParams_loop.induct)
     (auto simp: decodable_simps split: option.splits)

lemma extractParams_loop_decodable:
  "decodable ks caps \<Longrightarrow>
   \<exists>ps'. extractParams_loop ks caps ps = Inr ps' \<and>
     (\<forall>k. ps' k = (case map_of (rev (captured ks caps)) k of
                     None \<Rightarrow> ps k
                   | Some v \<Rightarrow> if k = ''__proto__'' then ps k else decodeURIComponent v))"
proof (induction ks caps ps rule: extractParams_loop.induct)
  case (1 caps ps)
  then show ?case by simp
next
  case (2 key ks ps)
  then show ?case by (simp add: decodable_simps decodable_Nil)
next
  case (3 key ks caps ps)
  then show ?case by (simp add: decodable_simps)
next
  case (4 key ks v caps ps)
  from "4.prems" obtain d where d: "decodeURIComponent v = Some d" and rest: "decodable ks caps"
    by (auto simp: decodable_simps)
  from "4.IH"[OF d rest] obtain ps' where
    r: "extractParams_loop ks caps (assign ps key d) = Inr ps'"
    and c: "\<And>k. ps' k = (case map_of (rev (captured ks caps)) k of
                     None \<Rightarrow> assign ps key d k
                   | Some v \<Rightarrow> if k = ''__proto__'' then assign ps key d k else decodeURIComponent v)"
    by blast
  have "ps' k = (case map_of (rev (captured (key # ks) (Some v # caps))) k of
                     None \<Rightarrow> ps k
                   | Some v \<Rightarrow> if k = ''__proto__'' then ps k else decodeURIComponent v)" for k
    unfolding c[of k]
    by (cases "map_of (rev (captured ks caps)) k")
       (auto simp: assign_def d map_add_def split: option.splits)
  then show ?case using r d by simp
qed

lemma captured_keys: "(k, v) \<in> set (captured ks caps) \<Longrightarrow> k \<in> set ks"
  by (induction ks caps rule: captured.induct) auto

lemma extractParams_loop_plain_keys:
  assumes "decodable ks caps" and "''__proto__'' \<notin> set ks"
  shows "\<exists>ps'. extractParams_loop ks caps Map.empty = Inr ps' \<and>
     (\<forall>k. ps' k = (case map_of (rev (captured ks caps)) k of
                     None \<Rightarrow> None
                   | Some v \<Rightarrow> decodeURIComponent v))"
proof -
  from extractParams_loop_decodable[OF assms(1), of Map.empty] obtain ps' where
    r: "extractParams_loop ks caps Map.empty = Inr ps'"
    and c: "\<And>k. ps' k = (case map_of (rev (captured ks caps)) k of
                     None \<Rightarrow> None
                   | Some v \<Rightarrow> if k = ''__proto__'' then None else decodeURIComponent v)"
    by auto
  have "ps' k = (case map_of (rev (captured ks caps)) k of
                     None \<Rightarrow> None
                   | Some v \<Rightarrow> decodeURIComponent v)" for k
  proof (cases "map_of (rev (captured ks caps)) k")
    case None
    then show ?thesis by (simp add: c)
  next
    case (Some v)
    then have "(k, v) \<in> set (captured ks caps)" by (auto dest: map_of_SomeD)
    then have "k \<in> set ks" by (rule captured_keys)
    then have "k \<noteq> ''__proto__''" using assms(2) by auto
    then show ?thesis using Some by (simp add: c)
  qed
  then show ?thesis using r by blast
qed

section \<open>The examples with the template \<open>/users/:id\<close>, evaluated\<close>

lemma parse_users_id:
  "parse_template True ''/users/:id'' = Some (map Lit ''/users/'' @ [Param ''id''])"
  by code_simp

lemma parse_no_name: "parse_template True ''/users/:'' = None"
  by code_simp

lemma users_id_caps:
  "match_tokens (map Lit ''/users/'' @ [Param ''id'']) ''/users/%'' = Some [Some ''%'']"
  "match_tokens (map Lit ''/users/'' @ [Param ''id'']) ''/users/%41'' = Some [Some ''%41'']"
  "match_tokens (map Lit ''/users/'' @ [Param ''id'']) ''/posts/1'' = None"
  by code_simp+

lemma users_id_keys:
  "param_names (map Lit ''/users/'' @ [Param ''id'']) = [''id'']"
  by code_simp

lemma decode_examples:
  "decodeURIComponent ''%'' = None"
  "decodeURIComponent ''%41'' = Some ''A''"
  by code_simp+

lemma plain_None: "parse_template True t = None \<Longrightarrow> plain_pathToRegexp t = None"
  by (simp add: plain_pathToRegexp_def)

lemma plain_Some:
  "parse_template True t = Some ts \<Longrightarrow>
   plain_pathToRegexp t = Some \<lparr>regexp = match_tokens ts, keys = param_names ts\<rparr>"
  by (simp add: plain_pathToRegexp_def)

subsection \<open>Claim C8\<close>

text \<open>
  C8, as stated, fails: \<open>extractParams\<close> throws.  The template \<open>/users/:id\<close> matches
  the pathname \<open>/users/%\<close> and the decoder throws \<open>URIError\<close> on the captured \<open>%\<close>;
  the template \<open>/users/:\<close> is rejected by the compiler, which throws.
\<close>

theorem extractParams_throws_counterexample:
  "extractParams plain_pathToRegexp ''/users/:id'' ''/users/%'' = Inl URIError
   \<and> extractParams plain_pathToRegexp ''/users/:'' ''/users/1'' = Inl TypeError"
proof (intro conjI)
  show "extractParams plain_pathToRegexp ''/users/:id'' ''/users/%'' = Inl URIError"
    by (simp add: extractParams_def plain_literal[OF parse_users_id] users_id_caps users_id_keys
        decode_examples del: decodeURIComponent.simps)
  show "extractParams plain_pathToRegexp ''/users/:'' ''/users/1'' = Inl TypeError"
    by (simp add: extractParams_def getRegexp_def plain_None[OF parse_no_name])
qed

text \<open>
  C8, amended.  For every compiler, template and pathname: if the compiler rejects the
  template, \<open>extractParams\<close> throws \<open>TypeError\<close>.  If the compiled matcher fails to match
  the pathname, it returns the empty mapping.  If the matcher matches and the decoder
  rejects one of the defined groups that have a key, it throws \<open>URIError\<close>.  If the
  matcher matches, the decoder accepts these groups and no key is \<open>__proto__\<close>, it
  returns a mapping that gives each parameter name the percent-decoded value of the
  last defined group captured under that name, in the order of the compiled key list,
  and that has no other entry.
\<close>

theorem extractParams_result:
  "(ptr template = None \<longrightarrow> extractParams ptr template pathname = Inl TypeError)
   \<and> (ptr template = Some cp \<and> regexp cp pathname = None
        \<longrightarrow> extractParams ptr template pathname = Inr Map.empty)
   \<and> (ptr template = Some cp \<and> regexp cp pathname = Some caps \<and> \<not> decodable (keys cp) caps
        \<longrightarrow> extractParams ptr template pathname = Inl URIError)
   \<and> (ptr template = Some cp \<and> regexp cp pathname = Some caps \<and> decodable (keys cp) caps
        \<and> ''__proto__'' \<notin> set (keys cp)
        \<longrightarrow> (\<exists>ps. extractParams ptr template pathname = Inr ps \<and>
               (\<forall>k. ps k = (case map_of (rev (captured (keys cp) caps)) k of
                               None \<Rightarrow> None
                             | Some v \<Rightarrow> decodeURIComponent v))))"
proof (intro conjI impI)
  assume "ptr template = None"
  then show "extractParams ptr template pathname = Inl TypeError"
    by (simp add: extractParams_def getRegexp_def)
next
  assume "ptr template = Some cp \<and> regexp cp pathname = None"
  then show "extractParams ptr template pathname = Inr Map.empty"
    by (simp add: extractParams_def getRegexp_def getKeys_def)
next
  assume a: "ptr template = Some cp \<and> regexp cp pathname = Some caps \<and> \<not> decodable (keys cp) caps"
  then have "extractParams ptr template pathname = extractParams_loop (keys cp) caps Map.empty"
    by (simp add: extractParams_def getRegexp_def getKeys_def)
  then show "extractParams ptr template pathname = Inl URIError"
    using a extractParams_loop_undecodable by simp
next
  assume a: "ptr template = Some cp \<and> regexp cp pathname = Some caps \<and> decodable (keys cp) caps
        \<and> ''__proto__'' \<notin> set (keys cp)"
  then have "extractParams ptr template pathname = extractParams_loop (keys cp) caps Map.empty"
    by (simp add: extractParams_def getRegexp_def getKeys_def)
  then show "\<exists>ps. extractParams ptr template pathname = Inr ps \<and>
               (\<forall>k. ps k = (case map_of (rev (captured (keys cp) caps)) k of
                               None \<Rightarrow> None
                             | Some v \<Rightarrow> decodeURIComponent v))"
    using a extractParams_loop_plain_keys[of "keys cp" caps] by simp
qed

text \<open>
  The theorem at a rejected template, at a pathname that does not match, at a capture
  that cannot be decoded, and at one that can.
\<close>

theorem extractParams_result_witness:
  "plain_pathToRegexp ''/users/:'' = None
   \<and> extractParams plain_pathToRegexp ''/users/:'' ''/users/1'' = Inl TypeError
   \<and> plain_pathToRegexp ''/users/:id''
        = Some \<lparr>regexp = match_tokens (map Lit ''/users/'' @ [Param ''id'']), keys = [''id'']\<rparr>
   \<and> match_tokens (map Lit ''/users/'' @ [Param ''id'']) ''/posts/1'' = None
   \<and> extractParams plain_pathToRegexp ''/users/:id'' ''/posts/1'' = Inr Map.empty
   \<and> match_tokens (map Lit ''/users/'' @ [Param ''id'']) ''/users/%'' = Some [Some ''%'']
   \<and> \<not> decodable [''id''] [Some ''%'']
   \<and> extractParams plain_pathToRegexp ''/users/:id'' ''/users/%'' = Inl URIError
   \<and> match_tokens (map Lit ''/users/'' @ [Param ''id'']) ''/users/%41'' = Some [Some ''%41'']
   \<and> decodable [''id''] [Some ''%41'']
   \<and> ''__proto__'' \<notin> set [''id'']
   \<and> (case extractParams plain_pathToRegexp ''/users/:id'' ''/users/%41'' of
         Inl e \<Rightarrow> False
       | Inr ps \<Rightarrow> ps ''id'' = Some ''A'' \<and> ps ''other'' = None)"
proof -
  let ?cp = "\<lparr>regexp = match_tokens (map Lit ''/users/'' @ [Param ''id'']), keys = [''id'']\<rparr>"
  have h0: "plain_pathToRegexp ''/users/:'' = None"
    by (rule plain_None[OF parse_no_name])
  have cp: "plain_pathToRegexp ''/users/:id'' = Some ?cp"
    using plain_Some[OF parse_users_id] by (simp add: users_id_keys)
  have nd: "\<not> decodable [''id''] [Some ''%'']"
    by (simp add: decodable_simps decode_examples del: decodeURIComponent.simps)
  have dd: "decodable [''id''] [Some ''%41'']"
    by (simp add: decodable_simps decode_examples del: decodeURIComponent.simps)
  have np: "''__proto__'' \<notin> set [''id'']"
    by simp
  note T = extractParams_result
  from h0 T[of plain_pathToRegexp "''/users/:''" "''/users/1''"]
  have c0: "extractParams plain_pathToRegexp ''/users/:'' ''/users/1'' = Inl TypeError"
    by blast
  from cp users_id_caps(3) T[of plain_pathToRegexp "''/users/:id''" "''/posts/1''" ?cp]
  have c1: "extractParams plain_pathToRegexp ''/users/:id'' ''/posts/1'' = Inr Map.empty"
    by simp
  from cp users_id_caps(1) nd T[of plain_pathToRegexp "''/users/:id''" "''/users/%''" ?cp "[Some ''%'']"]
  have c2: "extractParams plain_pathToRegexp ''/users/:id'' ''/users/%'' = Inl URIError"
    by simp
  from cp users_id_caps(2) dd np
    T[of plain_pathToRegexp "''/users/:id''" "''/users/%41''" ?cp "[Some ''%41'']"]
  obtain ps where ps: "extractParams plain_pathToRegexp ''/users/:id'' ''/users/%41'' = Inr ps"
    and v: "\<And>k. ps k = (case map_of (rev (captured [''id''] [Some ''%41''])) k of
                               None \<Rightarrow> None
                             | Some v \<Rightarrow> decodeURIComponent v)"
    by auto
  have c3: "(case extractParams plain_pathToRegexp ''/users/:id'' ''/users/%41'' of
         Inl e \<Rightarrow> False
       | Inr ps \<Rightarrow> ps ''id'' = Some ''A'' \<and> ps ''other'' = None)"
    unfolding ps by (simp add: v decode_examples del: decodeURIComponent.simps)
  from h0 c0 cp users_id_caps c1 nd c2 dd np c3 show ?thesis by blast
qed

section \<open>The cache of compiled patterns is transparent\<close>

lemma coherent_clear: "coherent ptr (clearMatcherCache c)"
  by (simp add: coherent_def clearMatcherCache_def)

lemma getRegexp_cached_coherent:
  assumes "coherent ptr c"
  shows "fst (getRegexp_cached ptr p c) = getRegexp ptr p"
    and "coherent ptr (snd (getRegexp_cached ptr p c))"
proof -
  from assms have c: "case regexpCache c q of
             None \<Rightarrow> keysCache c q = None
           | Some re \<Rightarrow> (\<exists>cp. ptr q = Some cp \<and> re = regexp cp \<and> keysCache c q = Some (keys cp))" for q
    by (simp add: coherent_def)
  show "fst (getRegexp_cached ptr p c) = getRegexp ptr p"
    using c[of p] by (auto simp: getRegexp_cached_def getRegexp_def split: option.splits)
  show "coherent ptr (snd (getRegexp_cached ptr p c))"
    unfolding coherent_def
  proof
    fix q
    show "case regexpCache (snd (getRegexp_cached ptr p c)) q of
             None \<Rightarrow> keysCache (snd (getRegexp_cached ptr p c)) q = None
           | Some re \<Rightarrow> (\<exists>cp. ptr q = Some cp \<and> re = regexp cp
                \<and> keysCache (snd (getRegexp_cached ptr p c)) q = Some (keys cp))"
      using c[of q] by (auto simp: getRegexp_cached_def split: option.splits)
  qed
qed

lemma getKeys_cached_coherent:
  assumes "coherent ptr c"
  shows "fst (getKeys_cached ptr p c) = getKeys ptr p"
    and "coherent ptr (snd (getKeys_cached ptr p c))"
proof -
  from assms have c: "case regexpCache c q of
             None \<Rightarrow> keysCache c q = None
           | Some re \<Rightarrow> (\<exists>cp. ptr q = Some cp \<and> re = regexp cp \<and> keysCache c q = Some (keys cp))" for q
    by (simp add: coherent_def)
  show "fst (getKeys_cached ptr p c) = getKeys ptr p"
    using c[of p]
    by (auto simp: getKeys_cached_def getRegexp_cached_def getKeys_def split: option.splits)
  have "snd (getKeys_cached ptr p c) = c \<or> snd (getKeys_cached ptr p c) = snd (getRegexp_cached ptr p c)"
    by (auto simp: getKeys_cached_def split: option.splits prod.splits sum.splits)
  then show "coherent ptr (snd (getKeys_cached ptr p c))"
    using assms getRegexp_cached_coherent(2)[OF assms] by auto
qed

section \<open>The history adapter: the current path\<close>

lemma replace_first_prefix:
  "startsWith s pat \<Longrightarrow> pat \<noteq> [] \<Longrightarrow> replace_first s pat rep = rep @ drop (length pat) s"
  by (cases s) (auto simp: startsWith_def)

lemma getCurrentPath_under_base:
  assumes "loc_pathname l = base (HistoryModeAdapter b) @ rest"
  shows "getCurrentPath (HistoryModeAdapter b) l = (if rest = [] then ''/'' else rest)"
proof (cases "base (HistoryModeAdapter b) = []")
  case True
  then show ?thesis using assms by (simp add: HistoryModeAdapter_def split: if_splits)
next
  case False
  have "startsWith (loc_pathname l) (base (HistoryModeAdapter b))"
    using assms by (simp add: startsWith_def)
  from replace_first_prefix[OF this False, of "[]"]
  have "replace_first (loc_pathname l) (base (HistoryModeAdapter b)) [] = rest"
    using assms by simp
  then show ?thesis using False by (simp add: HistoryModeAdapter_def Let_def split: if_splits)
qed

lemma getCurrentPath_app_example:
  "getCurrentPath (HistoryModeAdapter ''/app'') (location (page ''/app/users/1'' None)) = ''/users/1''"
  "getCurrentPath (HistoryModeAdapter ''/app/'') (location (page ''/app/users/1'' None)) = ''/users/1''"
  "getCurrentPath (HistoryModeAdapter ''/app'') (location (page ''/app'' None)) = ''/''"
  by code_simp+

subsection \<open>Claim C9\<close>

text \<open>
  C9.  The claim is that the history adapter returns the pathname without the base
  prefix, and the adapter's own documentation says that it removes the base prefix if
  present.  The code removes the first occurrence of the base wherever it is: with the
  base \<open>/app\<close> and the pathname \<open>/x/app/y\<close>, which does not start with the base, it returns
  \<open>/x/y\<close>.
\<close>

theorem getCurrentPath_removes_inner_base:
  "getCurrentPath (HistoryModeAdapter ''/app'') (location (page ''/x/app/y'' None)) = ''/x/y''
   \<and> \<not> startsWith (loc_pathname (location (page ''/x/app/y'' None))) (base (HistoryModeAdapter ''/app''))"
  by code_simp

section \<open>The guard pipeline\<close>

lemma runGuards_append:
  "runGuards gs1 f t s = Some (RBool True, s1) \<Longrightarrow>
   runGuards (gs1 @ gs2) f t s = runGuards gs2 f t s1"
proof (induction gs1 arbitrary: s)
  case Nil
  then show ?case by simp
next
  case (Cons g gs1)
  obtain a s' where g: "g f t s = (a, s')" by (cases "g f t s")
  show ?case
  proof (cases a)
    case (Resolves r)
    show ?thesis
    proof (cases r)
      case (GBool b)
      then show ?thesis using Cons g Resolves by (cases b) simp_all
    next
      case (GString x)
      then show ?thesis using Cons.prems g Resolves by simp
    next
      case GVoid
      then show ?thesis using Cons g Resolves by simp
    qed
  next
    case (Rejects err)
    then show ?thesis using Cons.prems g by simp
  next
    case Pending
    then show ?thesis using Cons.prems g by simp
  qed
qed

lemma runGuards_all_affirmative:
  "\<forall>g \<in> set gs. \<forall>x. affirmative (fst (g f t x)) \<Longrightarrow> \<exists>s'. runGuards gs f t s = Some (RBool True, s')"
proof (induction gs arbitrary: s)
  case Nil
  then show ?case by simp
next
  case (Cons g gs)
  obtain a s' where g: "g f t s = (a, s')" by (cases "g f t s")
  from Cons.prems have "affirmative (fst (g f t s))" by simp
  then have "a = Resolves (GBool True) \<or> a = Resolves GVoid" using g by (simp add: affirmative_def)
  moreover from Cons have "\<exists>s''. runGuards gs f t s' = Some (RBool True, s'')" by simp
  ultimately show ?case using g by auto
qed

lemma example_guards:
  "runGuards [allow ''g1'', cancel ''g2'', allow ''g3''] ''/a'' ''/b'' (page ''/a'' None) =
     Some (RBool False, (page ''/a'' None)\<lparr>world := [(''g1'', ''/a'', ''/b''), (''g2'', ''/a'', ''/b'')]\<rparr>)"
  "runGuards [allow ''g1'', failing ''g2'', allow ''g3''] ''/a'' ''/b'' (page ''/a'' None) =
     Some (RBool False, (page ''/a'' None)
       \<lparr>console := [(''[Router] Error in beforeEach guard:'', ''boom'')],
        world := [(''g1'', ''/a'', ''/b''), (''g2'', ''/a'', ''/b'')]\<rparr>)"
  by (simp_all add: allow_def cancel_def failing_def record_call_def page_def)

text \<open>
  The pipeline over a list of guards fixed in advance.  When the guards before a guard
  have all let the pipeline go on and that guard returns \<open>false\<close>, the pipeline returns
  \<open>false\<close> in the state that guard left, whatever guards follow; likewise for a string;
  when every guard returns \<open>true\<close> or no value, the pipeline returns \<open>true\<close>.
\<close>

lemma runGuards_list_first_decisive_guard:
  "(runGuards gs1 f t s = Some (RBool True, s1) \<and> g f t s1 = (Resolves (GBool False), s2)
      \<longrightarrow> runGuards (gs1 @ g # gs2) f t s = Some (RBool False, s2))
   \<and> (runGuards gs1 f t s = Some (RBool True, s1) \<and> g f t s1 = (Resolves (GString target), s2)
      \<longrightarrow> runGuards (gs1 @ g # gs2) f t s = Some (RString target, s2))
   \<and> ((\<forall>g \<in> set gs. \<forall>x. affirmative (fst (g f t x)))
      \<longrightarrow> (\<exists>s'. runGuards gs f t s = Some (RBool True, s')))
   \<and> beforeGuards (beforeEach g3 (beforeEach g2 (beforeEach g1 (clearGuards reg)))) = [g1, g2, g3]
   \<and> runGuards [allow ''g1'', cancel ''g2'', allow ''g3''] ''/a'' ''/b'' (page ''/a'' None) =
       Some (RBool False,
             (page ''/a'' None)\<lparr>world := [(''g1'', ''/a'', ''/b''), (''g2'', ''/a'', ''/b'')]\<rparr>)"
proof (intro conjI impI)
  assume "runGuards gs1 f t s = Some (RBool True, s1) \<and> g f t s1 = (Resolves (GBool False), s2)"
  then show "runGuards (gs1 @ g # gs2) f t s = Some (RBool False, s2)"
    using runGuards_append[of gs1 f t s s1 "g # gs2"] by simp
next
  assume "runGuards gs1 f t s = Some (RBool True, s1) \<and> g f t s1 = (Resolves (GString target), s2)"
  then show "runGuards (gs1 @ g # gs2) f t s = Some (RString target, s2)"
    using runGuards_append[of gs1 f t s s1 "g # gs2"] by simp
next
  assume "\<forall>g \<in> set gs. \<forall>x. affirmative (fst (g f t x))"
  then show "\<exists>s'. runGuards gs f t s = Some (RBool True, s')"
    by (rule runGuards_all_affirmative)
next
  show "beforeGuards (beforeEach g3 (beforeEach g2 (beforeEach g1 (clearGuards reg)))) = [g1, g2, g3]"
    by (simp add: beforeEach_def clearGuards_def)
next
  show "runGuards [allow ''g1'', cancel ''g2'', allow ''g3''] ''/a'' ''/b'' (page ''/a'' None) =
       Some (RBool False,
             (page ''/a'' None)\<lparr>world := [(''g1'', ''/a'', ''/b''), (''g2'', ''/a'', ''/b'')]\<rparr>)"
    by (rule example_guards(1))
qed

subsection \<open>Claim C6\<close>



section \<open>The guard pipeline over the live array\<close>

lemma runGuards_live_from:
  assumes st: "\<forall>guard \<in> set R. \<forall>f t x. registered (snd (table guard f t x)) = registered x"
  shows "registered s = R \<Longrightarrow> i \<le> length R \<Longrightarrow>
     runGuards_live table i f t s = runGuards (map table (drop i R)) f t s"
proof (induction "length R - i" arbitrary: i s)
  case 0
  then have "i = length R" by simp
  then show ?case using "0.prems" by (subst runGuards_live.simps) simp
next
  case (Suc n)
  then have i: "i < length R" by simp
  then have d: "drop i R = R ! i # drop (Suc i) R" by (simp add: Cons_nth_drop_Suc)
  obtain a s' where g: "table (R ! i) f t s = (a, s')" by (cases "table (R ! i) f t s")
  have "R ! i \<in> set R" using i by simp
  then have "registered (snd (table (R ! i) f t s)) = registered s" using st by blast
  then have r: "registered s' = R" using g Suc.prems(1) by simp
  have ih: "runGuards_live table (Suc i) f t s' = runGuards (map table (drop (Suc i) R)) f t s'"
    using Suc.hyps(1)[of "Suc i" s'] Suc.hyps(2) r i by simp
  show ?case
  proof (cases a)
    case (Resolves v)
    show ?thesis
    proof (cases v)
      case (GBool b)
      then show ?thesis using i g Resolves ih Suc.prems(1) unfolding d
        by (subst runGuards_live.simps) (cases b; simp)
    next
      case (GString y)
      then show ?thesis using i g Resolves Suc.prems(1) unfolding d
        by (subst runGuards_live.simps) simp
    next
      case GVoid
      then show ?thesis using i g Resolves ih Suc.prems(1) unfolding d
        by (subst runGuards_live.simps) simp
    qed
  next
    case (Rejects err)
    then show ?thesis using i g Suc.prems(1) unfolding d
      by (subst runGuards_live.simps) simp
  next
    case Pending
    then show ?thesis using i g Suc.prems(1) unfolding d
      by (subst runGuards_live.simps) simp
  qed
qed

lemma runGuards_live_stable:
  "registry_stable table s \<Longrightarrow>
   runGuards_live table 0 f t s = runGuards (map table (registered s)) f t s"
  using runGuards_live_from[of "registered s" table s 0 f t]
  by (simp add: registry_stable_def)

lemma runGuards_live_first_decisive:
  assumes "registry_stable table s" and "registered s = gs1 @ g # gs2"
    and "runGuards (map table gs1) f t s = Some (RBool True, s1)"
  shows "table g f t s1 = (Resolves (GBool False), s2) \<Longrightarrow>
           runGuards_live table 0 f t s = Some (RBool False, s2)"
    and "table g f t s1 = (Resolves (GString target), s2) \<Longrightarrow>
           runGuards_live table 0 f t s = Some (RString target, s2)"
    and "table g f t s1 = (Rejects err, s2) \<Longrightarrow>
           runGuards_live table 0 f t s =
             Some (RBool False,
                   s2\<lparr>console := console s2 @ [(''[Router] Error in beforeEach guard:'', err)]\<rparr>)"
proof -
  have e: "runGuards_live table 0 f t s = runGuards (table g # map table gs2) f t s1"
    using runGuards_live_stable[OF assms(1), of f t] runGuards_append[OF assms(3), of "table g # map table gs2"]
    by (simp add: assms(2))
  show "table g f t s1 = (Resolves (GBool False), s2) \<Longrightarrow>
           runGuards_live table 0 f t s = Some (RBool False, s2)"
    unfolding e by simp
  show "table g f t s1 = (Resolves (GString target), s2) \<Longrightarrow>
           runGuards_live table 0 f t s = Some (RString target, s2)"
    unfolding e by simp
  show "table g f t s1 = (Rejects err, s2) \<Longrightarrow>
           runGuards_live table 0 f t s =
             Some (RBool False,
                   s2\<lparr>console := console s2 @ [(''[Router] Error in beforeEach guard:'', err)]\<rparr>)"
    unfolding e by simp
qed

lemmas live_eval = registered_def remover_def note_call_def live_page_def beforeEach_live_def

lemma plain_table_run:
  "runGuards_live plain_table 0 ''/a'' ''/b'' (live_page [1, 2, 3] []) =
     Some (RBool False, live_page [1, 2, 3] [(''g1'', ''/a'', ''/b''), (''g2'', ''/a'', ''/b'')])"
  apply (subst runGuards_live.simps, simp add: plain_table_def live_eval)
  apply (subst runGuards_live.simps, simp add: plain_table_def live_eval)
  done

lemma one_shot_table_run:
  "runGuards_live one_shot_table 0 ''/a'' ''/b'' (live_page [1, 2, 3] []) =
     Some (RBool True, live_page [2, 3] [(''g1'', ''/a'', ''/b''), (''g3'', ''/a'', ''/b'')])"
  apply (subst runGuards_live.simps, simp add: one_shot_table_def live_eval)
  apply (subst runGuards_live.simps, simp add: one_shot_table_def live_eval)
  apply (subst runGuards_live.simps, simp add: one_shot_table_def live_eval)
  done

subsection \<open>Claim C3\<close>

text \<open>
  C3.  The claim is that \<open>runGuards\<close> runs the registered guards in registration order
  and stops at the first one that returns \<open>false\<close> or a string, so that with the guards
  allow, cancel, allow registered in this order the first two are invoked, the third is
  not, and the result is \<open>false\<close>; the doc comments of guards.ts say the same (guards
  run in the order they were registered; all registered guards are executed, until one
  returns \<open>false\<close> or a redirect).  The loop walks the array itself, which a remover
  splices during the run.  When guard 1, registered for one navigation only, calls its
  own remover and allows, the array becomes 2, 3 while the iterator moves on to
  position 1: guard 2, which would cancel, is skipped, guard 3 is invoked and the
  result is \<open>true\<close>.
\<close>

theorem runGuards_skips_guard_after_removal:
  "registered (beforeEach_live 3 (beforeEach_live 2 (beforeEach_live 1 (live_page [] [])))) = [1, 2, 3]
   \<and> fst (one_shot_table 1 ''/a'' ''/b'' (live_page [1, 2, 3] [])) = Resolves (GBool True)
   \<and> fst (one_shot_table 2 ''/a'' ''/b'' (live_page [2, 3] [(''g1'', ''/a'', ''/b'')])) = Resolves (GBool False)
   \<and> fst (one_shot_table 3 ''/a'' ''/b'' (live_page [2, 3] [(''g1'', ''/a'', ''/b'')])) = Resolves (GBool True)
   \<and> runGuards_live one_shot_table 0 ''/a'' ''/b'' (live_page [1, 2, 3] []) =
       Some (RBool True, live_page [2, 3] [(''g1'', ''/a'', ''/b''), (''g3'', ''/a'', ''/b'')])"
proof (intro conjI)
  show "registered (beforeEach_live 3 (beforeEach_live 2 (beforeEach_live 1 (live_page [] [])))) = [1, 2, 3]"
    by (simp add: live_eval)
  show "fst (one_shot_table 1 ''/a'' ''/b'' (live_page [1, 2, 3] [])) = Resolves (GBool True)"
    by (simp add: one_shot_table_def)
  show "fst (one_shot_table 2 ''/a'' ''/b'' (live_page [2, 3] [(''g1'', ''/a'', ''/b'')])) = Resolves (GBool False)"
    by (simp add: one_shot_table_def)
  show "fst (one_shot_table 3 ''/a'' ''/b'' (live_page [2, 3] [(''g1'', ''/a'', ''/b'')])) = Resolves (GBool True)"
    by (simp add: one_shot_table_def)
  show "runGuards_live one_shot_table 0 ''/a'' ''/b'' (live_page [1, 2, 3] []) =
       Some (RBool True, live_page [2, 3] [(''g1'', ''/a'', ''/b''), (''g3'', ''/a'', ''/b'')])"
    by (rule one_shot_table_run)
qed

section \<open>Navigation: the steps of \<open>push\<close> and \<open>replace\<close>\<close>

lemma getRouterMode_again:
  "getRouterMode (snd (getRouterMode s)) = (fst (getRouterMode s), snd (getRouterMode s))"
  by (simp add: getRouterMode_def split: option.splits)

lemma entry_state_eq: "entry_state s = s\<lparr>currentAdapter := Some (held_adapter s)\<rparr>"
  by (simp add: entry_state_def held_adapter_def getCurrentPathname_def getRouterMode_def
      split: option.splits)

lemma from_path_eq: "from_path s = getCurrentPath (held_adapter s) (location s)"
  by (simp add: from_path_def held_adapter_def getCurrentPathname_def getRouterMode_def
      split: option.splits)

lemma push_steps:
  "push reg t query s =
     (case runGuards (beforeGuards reg) (from_path s) t (entry_state s) of
        None \<Rightarrow> None
      | Some (RBool False, s2) \<Rightarrow> Some (Inr False, s2)
      | Some (RString target, s2) \<Rightarrow> push reg target (Some []) s2
      | Some (RBool True, s2) \<Rightarrow>
          (case adapter_push (held_adapter s) t (buildSearchString query) s2 of
             Inl e \<Rightarrow> Some (Inl e, s2)
           | Inr s3 \<Rightarrow>
               Some (Inr True,
                     runAfterHooks (afterHooks reg) (from_path s) t
                       (s3\<lparr>href := location_href (location s3)\<rparr>))))"
proof -
  obtain a s0 where a: "getRouterMode s = (a, s0)" by (cases "getRouterMode s")
  obtain fr s1 where f: "getCurrentPathname s0 = (fr, s1)" by (cases "getCurrentPathname s0")
  have 1: "held_adapter s = a" and 2: "from_path s = fr" and 3: "entry_state s = s1"
    using a f by (simp_all add: held_adapter_def from_path_def entry_state_def)
  show ?thesis
    unfolding 1 2 3
    by (subst push.simps)
       (simp add: a f Let_def split: option.splits guard_result.splits bool.splits sum.splits)
qed

lemma replace_steps:
  "replace reg t query s =
     (case runGuards (beforeGuards reg) (from_path s) t (entry_state s) of
        None \<Rightarrow> None
      | Some (RBool False, s2) \<Rightarrow> Some (Inr False, s2)
      | Some (RString target, s2) \<Rightarrow> replace reg target (Some []) s2
      | Some (RBool True, s2) \<Rightarrow>
          (case adapter_replace (held_adapter s) t (buildSearchString query) s2 of
             Inl e \<Rightarrow> Some (Inl e, s2)
           | Inr s3 \<Rightarrow>
               Some (Inr True,
                     runAfterHooks (afterHooks reg) (from_path s) t
                       (s3\<lparr>href := location_href (location s3)\<rparr>))))"
proof -
  obtain a s0 where a: "getRouterMode s = (a, s0)" by (cases "getRouterMode s")
  obtain fr s1 where f: "getCurrentPathname s0 = (fr, s1)" by (cases "getCurrentPathname s0")
  have 1: "held_adapter s = a" and 2: "from_path s = fr" and 3: "entry_state s = s1"
    using a f by (simp_all add: held_adapter_def from_path_def entry_state_def)
  show ?thesis
    unfolding 1 2 3
    by (subst replace.simps)
       (simp add: a f Let_def del: adapter_replace.simps
         split: option.splits guard_result.splits bool.splits sum.splits)
qed

lemma runGuards_quiet:
  "\<forall>g \<in> set gs. quiet g \<Longrightarrow> runGuards gs f t s = Some (r, s') \<Longrightarrow>
   location s' = location s \<and> entries s' = entries s \<and> href s' = href s"
proof (induction gs arbitrary: s)
  case Nil
  then show ?case by simp
next
  case (Cons g gs)
  obtain a x where g: "g f t s = (a, x)" by (cases "g f t s")
  from Cons.prems(1) have "quiet g" by simp
  then have q: "location x = location s \<and> entries x = entries s \<and> href x = href s"
    using g unfolding quiet_def by (metis snd_conv)
  have rest: "\<forall>g \<in> set gs. quiet g" using Cons.prems(1) by simp
  show ?case
  proof (cases a)
    case (Resolves v)
    show ?thesis
    proof (cases v)
      case (GBool b)
      show ?thesis
      proof (cases b)
        case True
        then have "runGuards gs f t x = Some (r, s')" using Cons.prems(2) g Resolves GBool by simp
        from Cons.IH[OF rest this] q show ?thesis by simp
      next
        case False
        then show ?thesis using Cons.prems(2) g Resolves GBool q by auto
      qed
    next
      case (GString y)
      then show ?thesis using Cons.prems(2) g Resolves q by auto
    next
      case GVoid
      then have "runGuards gs f t x = Some (r, s')" using Cons.prems(2) g Resolves by simp
      from Cons.IH[OF rest this] q show ?thesis by simp
    qed
  next
    case (Rejects err)
    then show ?thesis using Cons.prems(2) g q by auto
  next
    case Pending
    then show ?thesis using Cons.prems(2) g by simp
  qed
qed

lemma cancelled_example:
  "runGuards [cancel ''g''] (from_path (page ''/a'' None)) ''/b'' (entry_state (page ''/a'' None)) =
     Some (RBool False, (page ''/a'' (Some (HistoryAdapter [])))\<lparr>world := [(''g'', ''/a'', ''/b'')]\<rparr>)"
  by (simp add: entry_state_eq from_path_eq held_adapter_def getRouterMode_def HistoryModeAdapter_def
      endsWith_def cancel_def record_call_def page_def)

lemma push_cancelled:
  "runGuards (beforeGuards reg) (from_path s) t (entry_state s) = Some (RBool False, s2) \<Longrightarrow>
   push reg t query s = Some (Inr False, s2)"
  by (subst push_steps) simp

lemma replace_cancelled:
  "runGuards (beforeGuards reg) (from_path s) t (entry_state s) = Some (RBool False, s2) \<Longrightarrow>
   replace reg t query s = Some (Inr False, s2)"
  by (subst replace_steps) simp

lemma cancelled_example_registry:
  "runGuards (beforeGuards \<lparr>beforeGuards = [cancel ''g''], afterHooks = [observe]\<rparr>)
       (from_path (page ''/a'' None)) ''/b'' (entry_state (page ''/a'' None)) =
     Some (RBool False, (page ''/a'' (Some (HistoryAdapter [])))\<lparr>world := [(''g'', ''/a'', ''/b'')]\<rparr>)"
  by (simp add: entry_state_eq from_path_eq held_adapter_def getRouterMode_def HistoryModeAdapter_def
      endsWith_def cancel_def record_call_def page_def)

subsection \<open>Claim C4\<close>

text \<open>
  C4.  When the guard pipeline of a navigation returns \<open>false\<close>, \<open>push\<close> and \<open>replace\<close>
  resolve to \<open>false\<close> (they neither reject nor stay pending) in the very state the
  pipeline left: the adapter is not asked to push or replace, the URL state is not
  written and no after-hook runs.  If moreover the guards themselves leave the browser
  and the URL state alone, then location, session history and the URL held by the
  router state are what they were before the call.  With a cancelling guard and a
  recording hook, only the guard's call is recorded.
\<close>

theorem cancelled_navigation_touches_nothing:
  "(runGuards (beforeGuards reg) (from_path s) t (entry_state s) = Some (RBool False, s2)
      \<longrightarrow> push reg t query s = Some (Inr False, s2) \<and> replace reg t query s = Some (Inr False, s2))
   \<and> ((\<forall>g \<in> set (beforeGuards reg). quiet g)
        \<and> runGuards (beforeGuards reg) (from_path s) t (entry_state s) = Some (RBool False, s2)
      \<longrightarrow> location s2 = location s \<and> entries s2 = entries s \<and> href s2 = href s)
   \<and> push \<lparr>beforeGuards = [cancel ''g''], afterHooks = [observe]\<rparr> ''/b'' None (page ''/a'' None) =
        Some (Inr False, (page ''/a'' (Some (HistoryAdapter [])))\<lparr>world := [(''g'', ''/a'', ''/b'')]\<rparr>)
   \<and> replace \<lparr>beforeGuards = [cancel ''g''], afterHooks = [observe]\<rparr> ''/b'' None (page ''/a'' None) =
        Some (Inr False, (page ''/a'' (Some (HistoryAdapter [])))\<lparr>world := [(''g'', ''/a'', ''/b'')]\<rparr>)"
proof (intro conjI impI)
  assume a: "runGuards (beforeGuards reg) (from_path s) t (entry_state s) = Some (RBool False, s2)"
  show "push reg t query s = Some (Inr False, s2)"
    using a by (rule push_cancelled)
  show "replace reg t query s = Some (Inr False, s2)"
    using a by (rule replace_cancelled)
next
  assume a: "(\<forall>g \<in> set (beforeGuards reg). quiet g)
        \<and> runGuards (beforeGuards reg) (from_path s) t (entry_state s) = Some (RBool False, s2)"
  then have "location s2 = location (entry_state s) \<and> entries s2 = entries (entry_state s)
      \<and> href s2 = href (entry_state s)"
    using runGuards_quiet by blast
  then show "location s2 = location s" "entries s2 = entries s" "href s2 = href s"
    by (simp_all add: entry_state_eq)
next
  show "push \<lparr>beforeGuards = [cancel ''g''], afterHooks = [observe]\<rparr> ''/b'' None (page ''/a'' None) =
        Some (Inr False, (page ''/a'' (Some (HistoryAdapter [])))\<lparr>world := [(''g'', ''/a'', ''/b'')]\<rparr>)"
    by (rule push_cancelled[OF cancelled_example_registry])
next
  show "replace \<lparr>beforeGuards = [cancel ''g''], afterHooks = [observe]\<rparr> ''/b'' None (page ''/a'' None) =
        Some (Inr False, (page ''/a'' (Some (HistoryAdapter [])))\<lparr>world := [(''g'', ''/a'', ''/b'')]\<rparr>)"
    by (rule replace_cancelled[OF cancelled_example_registry])
qed

text \<open>The theorem at the cancelling guard, which is quiet, on the page \<open>/a\<close>.\<close>

theorem cancelled_navigation_touches_nothing_witness:
  "runGuards (beforeGuards \<lparr>beforeGuards = [cancel ''g''], afterHooks = [observe]\<rparr>)
       (from_path (page ''/a'' None)) ''/b'' (entry_state (page ''/a'' None))
     = Some (RBool False, (page ''/a'' (Some (HistoryAdapter [])))\<lparr>world := [(''g'', ''/a'', ''/b'')]\<rparr>)
   \<and> quiet (cancel ''g'')
   \<and> push \<lparr>beforeGuards = [cancel ''g''], afterHooks = [observe]\<rparr> ''/b'' (Some [(''q'', QNumber 1)]) (page ''/a'' None)
     = Some (Inr False, (page ''/a'' (Some (HistoryAdapter [])))\<lparr>world := [(''g'', ''/a'', ''/b'')]\<rparr>)
   \<and> replace \<lparr>beforeGuards = [cancel ''g''], afterHooks = [observe]\<rparr> ''/b'' (Some [(''q'', QNumber 1)]) (page ''/a'' None)
     = Some (Inr False, (page ''/a'' (Some (HistoryAdapter [])))\<lparr>world := [(''g'', ''/a'', ''/b'')]\<rparr>)
   \<and> location ((page ''/a'' (Some (HistoryAdapter [])))\<lparr>world := [(''g'', ''/a'', ''/b'')]\<rparr>) = location (page ''/a'' None)
   \<and> entries ((page ''/a'' (Some (HistoryAdapter [])))\<lparr>world := [(''g'', ''/a'', ''/b'')]\<rparr>) = entries (page ''/a'' None)
   \<and> href ((page ''/a'' (Some (HistoryAdapter [])))\<lparr>world := [(''g'', ''/a'', ''/b'')]\<rparr>) = href (page ''/a'' None)"
proof -
  let ?reg = "\<lparr>beforeGuards = [cancel ''g''], afterHooks = [observe]\<rparr>"
  let ?s2 = "(page ''/a'' (Some (HistoryAdapter [])))\<lparr>world := [(''g'', ''/a'', ''/b'')]\<rparr>"
  have h: "runGuards (beforeGuards ?reg) (from_path (page ''/a'' None)) ''/b'' (entry_state (page ''/a'' None))
     = Some (RBool False, ?s2)"
    by (rule cancelled_example_registry)
  have q: "quiet (cancel ''g'')"
    by (simp add: quiet_def cancel_def record_call_def)
  then have q': "\<forall>g \<in> set (beforeGuards ?reg). quiet g" by simp
  note T = cancelled_navigation_touches_nothing[where reg = ?reg and s = "page ''/a'' None"
     and t = "''/b''" and ?s2.0 = ?s2 and query = "Some [(''q'', QNumber 1)]"]
  from h q' T show ?thesis using q by blast
qed

































subsection \<open>Claim C5\<close>




end
